theory Spec2Isabelle
  imports Complex_Main "HOL-Library.Word"
begin

chapter \<open>The speech-recognition hook \<open>useSpeechRecognition\<close>\<close>

text \<open>
  A shallow embedding of \<open>src/hooks/useSpeechRecognition.ts\<close> and of the batch route
  \<open>src/app/api/speech/assemblyai/route.ts\<close>. The hook is an event-driven program on the
  browser's single-threaded event loop: the model is a state record (the React state, the
  refs, the runtime objects the hook creates, and a log of what the caller observes) and one
  function per handler of the source, dispatched by \<open>step\<close> on a timestamped event.
\<close>

section \<open>JavaScript values and property lookup\<close>

text \<open>
  \<open>languageMap[lang] || 'en-US'\<close> reads a property of an object literal. Such a read
  finds own properties first and then follows the prototype chain to \<open>Object.prototype\<close>;
  the result need not be a string, and \<open>||\<close> keeps any truthy left operand.
\<close>

datatype js_value = JSUndefined | JSString string | JSFunction string | JSObject string

fun truthy :: "js_value \<Rightarrow> bool" where
  "truthy JSUndefined = False"
| "truthy (JSString s) = (s \<noteq> [])"
| "truthy (JSFunction f) = True"
| "truthy (JSObject ob) = True"

definition js_or :: "js_value \<Rightarrow> js_value \<Rightarrow> js_value" where
  "js_or a b = (if truthy a then a else b)"

text \<open>The properties every object literal inherits (ECMAScript \<open>Object.prototype\<close>,
  with the legacy accessors of Annex B).\<close>

definition Object_prototype :: "(string \<times> js_value) list" where
  "Object_prototype =
    [(''constructor'', JSFunction ''Object''),
     (''hasOwnProperty'', JSFunction ''hasOwnProperty''),
     (''isPrototypeOf'', JSFunction ''isPrototypeOf''),
     (''propertyIsEnumerable'', JSFunction ''propertyIsEnumerable''),
     (''toLocaleString'', JSFunction ''toLocaleString''),
     (''toString'', JSFunction ''toString''),
     (''valueOf'', JSFunction ''valueOf''),
     (''__proto__'', JSObject ''Object.prototype''),
     (''__defineGetter__'', JSFunction ''__defineGetter__''),
     (''__defineSetter__'', JSFunction ''__defineSetter__''),
     (''__lookupGetter__'', JSFunction ''__lookupGetter__''),
     (''__lookupSetter__'', JSFunction ''__lookupSetter__'')]"

definition get_property :: "(string \<times> string) list \<Rightarrow> string \<Rightarrow> js_value" where
  "get_property own key =
    (case map_of own key of
       Some v \<Rightarrow> JSString v
     | None \<Rightarrow> (case map_of Object_prototype key of Some v \<Rightarrow> v | None \<Rightarrow> JSUndefined))"

section \<open>The streaming provider's language code\<close>

definition languageMap :: "(string \<times> string) list" where
  "languageMap =
    [(''en'', ''en-US''), (''es'', ''es''), (''fr'', ''fr''), (''de'', ''de''),
     (''zh'', ''zh-CN''), (''hi'', ''hi''), (''ar'', ''ar''), (''pt'', ''pt-BR''),
     (''ru'', ''ru''), (''ja'', ''ja''), (''ko'', ''ko''), (''vi'', ''vi'')]"

definition getDeepgramLanguage :: "string \<Rightarrow> js_value" where
  "getDeepgramLanguage lang = js_or (get_property languageMap lang) (JSString ''en-US'')"

section \<open>Conversion of an audio block to 16-bit PCM\<close>

text \<open>
  \<open>pcmData[i] = Math.max(-32768, Math.min(32767, inputData[i] * 32768))\<close>, stored into an
  \<open>Int16Array\<close>. A sample is a binary floating-point number; for a sample in \<open>[-1, 1]\<close> the
  product with \<open>2^15\<close> is exact in double precision, so samples are modelled as reals. The
  store into the typed array is the conversion \<open>ToInt16\<close>: truncate towards zero, then
  reduce modulo \<open>2^16\<close> (the word type does the reduction). \<open>NaN\<close> and the infinities have
  no real counterpart; they lie outside the range the theorem speaks of.
\<close>

definition js_truncate :: "real \<Rightarrow> int" where
  "js_truncate x = (if x < 0 then \<lceil>x\<rceil> else \<lfloor>x\<rfloor>)"

definition ToInt16 :: "real \<Rightarrow> 16 word" where
  "ToInt16 x = word_of_int (js_truncate x)"

definition pcm_sample :: "real \<Rightarrow> 16 word" where
  "pcm_sample x = ToInt16 (max (- 32768) (min 32767 (x * 32768)))"

definition pcmData :: "real list \<Rightarrow> 16 word list" where
  "pcmData inputData = map pcm_sample inputData"

section \<open>Transcript text\<close>

text \<open>
  \<open>String.prototype.trim\<close> removes white space and line terminators at both ends. Of the
  characters of the 8-bit \<open>char\<close> type these are tab, line feed, vertical tab, form feed,
  carriage return, space and the no-break space. A string is falsy exactly when it is empty.
\<close>

definition js_whitespace :: "char \<Rightarrow> bool" where
  "js_whitespace c =
    (c \<in> set [CHR 0x09, CHR 0x0A, CHR 0x0B, CHR 0x0C, CHR 0x0D, CHR 0x20, CHR 0xA0])"

definition trim :: "string \<Rightarrow> string" where
  "trim s = rev (dropWhile js_whitespace (rev (dropWhile js_whitespace s)))"

text \<open>The claim's words: a text that is empty or consists only of white space.\<close>

definition blank :: "string \<Rightarrow> bool" where
  "blank s = list_all js_whitespace s"

section \<open>The batch route\<close>

text \<open>
  What \<open>fetch\<close> gives the hook: a rejection, or a response with its status and the
  \<open>transcript\<close> property of its JSON body (\<open>None\<close> when the body has none, as the error
  bodies of the route). \<open>response.ok\<close> holds for the statuses 200 to 299.
\<close>

datatype fetch_result = Rejected | Response nat "string option"

definition response_ok :: "nat \<Rightarrow> bool" where
  "response_ok status = (200 \<le> status \<and> status \<le> 299)"

text \<open>
  \<open>POST\<close> of \<open>api/speech/assemblyai/route.ts\<close>, as a function of whether
  \<open>ASSEMBLYAI_API_KEY\<close> is set, whether the form has an audio file, and what the
  transcription client does: it throws, it reports the status \<open>error\<close> (the route throws),
  or it completes with a text that may be null.
\<close>

datatype transcribe_result = TranscribeThrows | TranscribeError | TranscribeDone "string option"

definition POST :: "bool \<Rightarrow> bool \<Rightarrow> transcribe_result \<Rightarrow> fetch_result" where
  "POST apiKey audioFile transcript =
    (if \<not> apiKey then Response 500 None
     else if \<not> audioFile then Response 400 None
     else (case transcript of
             TranscribeThrows \<Rightarrow> Response 500 None
           | TranscribeError \<Rightarrow> Response 500 None
           | TranscribeDone text \<Rightarrow>
               Response 200 (Some (case text of None \<Rightarrow> [] | Some txt \<Rightarrow> txt))))"

section \<open>The state of a session\<close>

datatype provider_name = deepgram | assemblyai | webspeech

datatype readyState = CONNECTING | OPEN | CLOSING | CLOSED

datatype track_state = live | ended

datatype recorder_state = inactive | recording

text \<open>
  Where the coroutine \<open>startRecording\<close> stands: not called yet, suspended at one of its
  awaits that wait for the outside world (the microphone permission, the configuration
  request of \<open>startDeepgram\<close>, the handshake promise of \<open>startDeepgram\<close>), or returned.
  \<open>startAssemblyAI\<close> and \<open>startWebSpeech\<close> contain no await, so awaiting them yields to no
  other event.
\<close>

datatype suspension = NotStarted | AwaitGetUserMedia | AwaitConfig | AwaitHandshake | Returned

type_synonym blob = "8 word list"

text \<open>
  One session is one call of \<open>startRecording\<close>: it creates at most one stream, one socket,
  one recorder and one recognizer, so a ref is modelled by whether it points to the
  session's object. After the React state and the refs come the objects themselves
  (\<open>None\<close> before they exist): the state of the stream's tracks, of the socket and of the
  recorder; the due time of the pending handshake timer; whether the interval is set,
  whether \<open>onaudioprocess\<close> is installed and whether the recognizer was started; the
  number of requests to the batch route that have not settled; the clock in milliseconds;
  and where \<open>startRecording\<close> stands. The last fields are what the caller and the outside observe: the calls
  of \<open>onTranscript\<close> and of \<open>onError\<close> (each with the value of \<open>isRecording\<close> at the call),
  the providers attempted and the result of each attempt, the number of streams acquired
  and of streams whose live tracks were stopped, the clips posted to the batch route and
  the frames sent on the socket.
\<close>

record session =
  isRecording :: bool
  isConnecting :: bool
  provider :: "provider_name option"
  mediaRecorderRef :: bool
  audioChunksRef :: "blob list"
  socketRef :: bool
  streamRef :: bool
  stream :: "track_state option"
  socket :: "readyState option"
  mediaRecorder :: "recorder_state option"
  timeout :: "nat option"
  transcribeInterval :: bool
  processor :: bool
  recognition :: bool
  inflight :: nat
  now :: nat
  suspended :: suspension
  transcripts :: "(string \<times> bool) list"
  errors :: "(string \<times> bool) list"
  attempts :: "provider_name list"
  verdicts :: "(provider_name \<times> bool) list"
  acquired :: nat
  released :: nat
  submitted :: "blob list"
  sent :: "16 word list list"

definition initial :: session where
  "initial =
    \<lparr>isRecording = False, isConnecting = False, provider = None,
     mediaRecorderRef = False, audioChunksRef = [], socketRef = False, streamRef = False,
     stream = None, socket = None, mediaRecorder = None, timeout = None,
     transcribeInterval = False, processor = False, recognition = False, inflight = 0,
     now = 0, suspended = NotStarted, transcripts = [], errors = [], attempts = [],
     verdicts = [], acquired = 0, released = 0, submitted = [], sent = []\<rparr>"

text \<open>What the runtime does when the hook asks: whether \<open>new MediaRecorder\<close> or
  \<open>mediaRecorder.start\<close> throws, and whether the browser has a speech recognizer and
  starts it.\<close>

datatype recorder_support = ConstructorThrows | StartThrows | RecorderStarts

datatype speech_support = NoWindow | NoSpeechRecognition | RecognitionThrows | RecognitionStarts

record environment =
  recorder :: recorder_support
  speech :: speech_support

section \<open>Callbacks and resources\<close>

definition onTranscript :: "string \<Rightarrow> bool \<Rightarrow> session \<Rightarrow> session" where
  "onTranscript txt isFinal s = s\<lparr>transcripts := transcripts s @ [(txt, isFinal)]\<rparr>"

definition onError :: "string \<Rightarrow> session \<Rightarrow> session" where
  "onError msg s = s\<lparr>errors := errors s @ [(msg, isRecording s)]\<rparr>"

definition denied_msg :: string where
  "denied_msg = ''Microphone access denied''"

definition unavailable_msg :: string where
  "unavailable_msg = ''All speech recognition services unavailable. Please use text input.''"

text \<open>\<open>stream.getTracks().forEach(track => track.stop())\<close>: stopping an ended track does
  nothing.\<close>

definition stop_tracks :: "session \<Rightarrow> session" where
  "stop_tracks s =
    (if stream s = Some live then s\<lparr>stream := Some ended, released := released s + 1\<rparr>
     else s)"

text \<open>\<open>socket.close()\<close>: a connecting or open socket starts closing.\<close>

definition socket_close :: "session \<Rightarrow> session" where
  "socket_close s =
    (if socket s = Some CONNECTING \<or> socket s = Some OPEN then s\<lparr>socket := Some CLOSING\<rparr>
     else s)"

section \<open>The batch provider\<close>

definition startAssemblyAI :: "environment \<Rightarrow> session \<Rightarrow> bool \<times> session" where
  "startAssemblyAI env s =
    (case recorder env of
       ConstructorThrows \<Rightarrow> (False, s)
     | StartThrows \<Rightarrow>
         (False, s\<lparr>mediaRecorder := Some inactive, mediaRecorderRef := True,
                    audioChunksRef := [], provider := Some assemblyai,
                    transcribeInterval := True\<rparr>)
     | RecorderStarts \<Rightarrow>
         (True, s\<lparr>mediaRecorder := Some recording, mediaRecorderRef := True,
                   audioChunksRef := [], provider := Some assemblyai,
                   transcribeInterval := True\<rparr>))"

definition ondataavailable :: "blob \<Rightarrow> session \<Rightarrow> session" where
  "ondataavailable data s =
    (if length data > 0 then s\<lparr>audioChunksRef := audioChunksRef s @ [data]\<rparr> else s)"

text \<open>
  The callback of \<open>setInterval(..., 3000)\<close> up to its \<open>await fetch\<close>: the clip is the
  concatenation of the chunks, posted when it has more than 10000 bytes. The rest of the
  callback runs when that request settles, as \<open>fetch_settled\<close>.
\<close>

definition transcribeInterval_tick :: "session \<Rightarrow> session" where
  "transcribeInterval_tick s =
    (if length (audioChunksRef s) > 0 then
       (let audioBlob = concat (audioChunksRef s) in
        if length audioBlob > 10000
        then s\<lparr>submitted := submitted s @ [audioBlob], inflight := inflight s + 1\<rparr>
        else s)
     else s)"

definition fetch_settled :: "fetch_result \<Rightarrow> session \<Rightarrow> session" where
  "fetch_settled r s =
    (case r of
       Rejected \<Rightarrow> s
     | Response status transcript \<Rightarrow>
         (if response_ok status then
            (case transcript of
               None \<Rightarrow> s
             | Some txt \<Rightarrow>
                 if txt \<noteq> [] then (onTranscript txt True s)\<lparr>audioChunksRef := []\<rparr> else s)
          else s))"


section \<open>The local provider\<close>

definition startWebSpeech :: "environment \<Rightarrow> session \<Rightarrow> bool \<times> session" where
  "startWebSpeech env s =
    (case speech env of
       NoWindow \<Rightarrow> (False, s)
     | NoSpeechRecognition \<Rightarrow> (False, s)
     | RecognitionThrows \<Rightarrow> (False, s)
     | RecognitionStarts \<Rightarrow> (True, s\<lparr>recognition := True, provider := Some webspeech\<rparr>))"

text \<open>The loop of \<open>recognition.onresult\<close> over \<open>event.results\<close> from \<open>event.resultIndex\<close>;
  a result is the transcript of its first alternative and its \<open>isFinal\<close> flag. The
  accumulator is the pair \<open>(interim, final)\<close>.\<close>

fun collect_results :: "(string \<times> bool) list \<Rightarrow> string \<times> string \<Rightarrow> string \<times> string" where
  "collect_results [] acc = acc"
| "collect_results ((transcript, isFinal) # rest) (interim, final) =
    (if isFinal then collect_results rest (interim, final @ transcript)
     else collect_results rest (interim @ transcript, final))"

definition recognition_onresult :: "nat \<Rightarrow> (string \<times> bool) list \<Rightarrow> session \<Rightarrow> session" where
  "recognition_onresult resultIndex results s =
    (let (interim, final) = collect_results (drop resultIndex results) ([], []);
         s1 = (if interim \<noteq> [] then onTranscript interim False s else s)
     in if final \<noteq> [] then onTranscript final True s1 else s1)"

definition recognition_onerror :: "string \<Rightarrow> session \<Rightarrow> session" where
  "recognition_onerror err s =
    (if err \<noteq> ''no-speech'' \<and> err \<noteq> ''aborted''
     then onError (''Speech error: '' @ err) s else s)"

section \<open>\<open>startRecording\<close>\<close>

definition startRecording :: "session \<Rightarrow> session" where
  "startRecording s = s\<lparr>isConnecting := True, suspended := AwaitGetUserMedia\<rparr>"

text \<open>\<open>getUserMedia\<close> resolves: the stream is stored and \<open>startDeepgram\<close> is called, which
  suspends at its configuration request.\<close>

definition getUserMedia_resolved :: "session \<Rightarrow> session" where
  "getUserMedia_resolved s =
    s\<lparr>stream := Some live, acquired := acquired s + 1, streamRef := True,
      attempts := attempts s @ [deepgram], suspended := AwaitConfig\<rparr>"

text \<open>\<open>getUserMedia\<close> rejects: the \<open>catch\<close> and the \<open>finally\<close> of \<open>startRecording\<close>.\<close>

definition getUserMedia_rejected :: "session \<Rightarrow> session" where
  "getUserMedia_rejected s =
    (onError denied_msg s)\<lparr>isConnecting := False, suspended := Returned\<rparr>"

definition attempt_AssemblyAI :: "environment \<Rightarrow> session \<Rightarrow> bool \<times> session" where
  "attempt_AssemblyAI env s =
    (case startAssemblyAI env (s\<lparr>attempts := attempts s @ [assemblyai]\<rparr>) of
       (success, s') \<Rightarrow> (success, s'\<lparr>verdicts := verdicts s' @ [(assemblyai, success)]\<rparr>))"

definition attempt_WebSpeech :: "environment \<Rightarrow> session \<Rightarrow> bool \<times> session" where
  "attempt_WebSpeech env s =
    (case startWebSpeech env (s\<lparr>attempts := attempts s @ [webspeech]\<rparr>) of
       (success, s') \<Rightarrow>
         (success,
          (if success then stop_tracks s' else s')
            \<lparr>verdicts := verdicts s' @ [(webspeech, success)]\<rparr>))"

text \<open>
  \<open>startRecording\<close> from the point where \<open>await startDeepgram(stream)\<close> gives its result:
  the two fallbacks, the exhaustion branch (which returns) or \<open>setIsRecording(true)\<close>, and
  the \<open>finally\<close>.
\<close>

definition startRecording_resume :: "environment \<Rightarrow> bool \<Rightarrow> session \<Rightarrow> session" where
  "startRecording_resume env success s =
    (let r0 = (success, s\<lparr>verdicts := verdicts s @ [(deepgram, success)]\<rparr>);
         r1 = (if \<not> fst r0 then attempt_AssemblyAI env (snd r0) else r0);
         r2 = (if \<not> fst r1 then attempt_WebSpeech env (snd r1) else r1);
         s3 = (if \<not> fst r2 then onError unavailable_msg (stop_tracks (snd r2))
               else (snd r2)\<lparr>isRecording := True\<rparr>)
     in s3\<lparr>isConnecting := False, suspended := Returned\<rparr>)"

section \<open>The streaming provider\<close>

text \<open>What the request to \<open>/api/speech/deepgram\<close> gives: it throws, the response is not ok,
  the body has no \<open>apiKey\<close>, or it has one.\<close>

datatype config_result = ConfigThrows | ConfigNotOk | ConfigNoKey | ConfigOk

text \<open>
  \<open>startDeepgram\<close> from its configuration request on. In the first three cases it returns
  \<open>false\<close> and \<open>startRecording\<close> goes on at once; otherwise it creates the socket, arms the
  5000 ms timer and returns the handshake promise.
\<close>

definition startDeepgram :: "environment \<Rightarrow> config_result \<Rightarrow> session \<Rightarrow> session" where
  "startDeepgram env config s =
    (case config of
       ConfigThrows \<Rightarrow> startRecording_resume env False s
     | ConfigNotOk \<Rightarrow> startRecording_resume env False s
     | ConfigNoKey \<Rightarrow> startRecording_resume env False s
     | ConfigOk \<Rightarrow>
         s\<lparr>socket := Some CONNECTING, timeout := Some (now s + 5000),
           suspended := AwaitHandshake\<rparr>)"

text \<open>\<open>resolve\<close> of the handshake promise: only the first call settles it, and
  \<open>startRecording\<close> then runs on. Each handler calls it as its last statement.\<close>

definition resolve :: "environment \<Rightarrow> bool \<Rightarrow> session \<Rightarrow> session" where
  "resolve env success s =
    (if suspended s = AwaitHandshake then startRecording_resume env success s else s)"

definition timeout_callback :: "environment \<Rightarrow> session \<Rightarrow> session" where
  "timeout_callback env s = resolve env False (socket_close (s\<lparr>timeout := None\<rparr>))"

definition socket_onopen :: "environment \<Rightarrow> session \<Rightarrow> session" where
  "socket_onopen env s =
    resolve env True
      (s\<lparr>timeout := None, socketRef := True, provider := Some deepgram, processor := True\<rparr>)"

definition socket_onerror :: "environment \<Rightarrow> session \<Rightarrow> session" where
  "socket_onerror env s = resolve env False (s\<lparr>timeout := None\<rparr>)"

text \<open>A message of the socket: text that \<open>JSON.parse\<close> rejects, or an object with its
  \<open>type\<close>, the transcript of its first alternative (\<open>None\<close> when the optional chain is
  undefined) and \<open>is_final || false\<close>. The confidence is only logged.\<close>

datatype message = Unparseable | Data string "string option" bool

definition socket_onmessage :: "message \<Rightarrow> session \<Rightarrow> session" where
  "socket_onmessage msg s =
    (case msg of
       Unparseable \<Rightarrow> s
     | Data type transcript isFinal \<Rightarrow>
         if type = ''SpeechStarted'' then s
         else if type = ''UtteranceEnd'' then s
         else (case transcript of
                 None \<Rightarrow> s
               | Some txt \<Rightarrow>
                   if txt \<noteq> [] then
                     (if trim txt \<noteq> [] then onTranscript txt isFinal s else s)
                   else s))"

definition onaudioprocess :: "real list \<Rightarrow> session \<Rightarrow> session" where
  "onaudioprocess inputData s =
    (if socket s = Some OPEN then s\<lparr>sent := sent s @ [pcmData inputData]\<rparr> else s)"

section \<open>\<open>stopRecording\<close>\<close>

text \<open>\<open>mediaRecorder.stop()\<close> makes the recorder inactive; its \<open>onstop\<close> handler clears the
  interval.\<close>

definition stopRecording :: "session \<Rightarrow> session" where
  "stopRecording s =
    (let s1 = (if socketRef s then (socket_close s)\<lparr>socketRef := False\<rparr> else s);
         s2 = (if mediaRecorderRef s1 \<and> mediaRecorder s1 \<noteq> Some inactive
               then s1\<lparr>mediaRecorder := Some inactive, transcribeInterval := False,
                        mediaRecorderRef := False\<rparr>
               else s1);
         s3 = (if streamRef s2 then (stop_tracks s2)\<lparr>streamRef := False\<rparr> else s2)
     in s3\<lparr>isRecording := False, provider := None\<rparr>)"

section \<open>The event loop\<close>

datatype event =
    StopRecording
  | GetUserMedia bool
  | ConfigSettled config_result
  | SocketOpen
  | SocketError
  | SocketClose
  | SocketMessage message
  | AudioProcess "real list"
  | DataAvailable blob
  | IntervalTick
  | FetchSettled fetch_result
  | RecognitionResult nat "(string \<times> bool) list"
  | RecognitionError string
  | Elapse

text \<open>
  An event reaches its handler only when the object that raises it is in a state to do so:
  a promise settles once, a socket opens while connecting and delivers messages until it is
  closed, a recorder delivers data while recording, a request settles when one is in
  flight, a recognizer that was started reports results and errors.
\<close>

definition dispatch :: "environment \<Rightarrow> event \<Rightarrow> session \<Rightarrow> session" where
  "dispatch env ev s =
    (case ev of
       StopRecording \<Rightarrow> stopRecording s
     | GetUserMedia granted \<Rightarrow>
         if suspended s = AwaitGetUserMedia
         then (if granted then getUserMedia_resolved s else getUserMedia_rejected s)
         else s
     | ConfigSettled config \<Rightarrow>
         if suspended s = AwaitConfig then startDeepgram env config s else s
     | SocketOpen \<Rightarrow>
         if socket s = Some CONNECTING then socket_onopen env (s\<lparr>socket := Some OPEN\<rparr>)
         else s
     | SocketError \<Rightarrow>
         if socket s = Some CONNECTING \<or> socket s = Some OPEN \<or> socket s = Some CLOSING
         then socket_onerror env (s\<lparr>socket := Some CLOSED\<rparr>)
         else s
     | SocketClose \<Rightarrow>
         if socket s = Some OPEN \<or> socket s = Some CLOSING then s\<lparr>socket := Some CLOSED\<rparr>
         else s
     | SocketMessage msg \<Rightarrow>
         if socket s = Some OPEN \<or> socket s = Some CLOSING then socket_onmessage msg s
         else s
     | AudioProcess inputData \<Rightarrow> if processor s then onaudioprocess inputData s else s
     | DataAvailable data \<Rightarrow>
         if mediaRecorder s = Some recording then ondataavailable data s else s
     | IntervalTick \<Rightarrow> if transcribeInterval s then transcribeInterval_tick s else s
     | FetchSettled r \<Rightarrow>
         if inflight s > 0 then fetch_settled r (s\<lparr>inflight := inflight s - 1\<rparr>) else s
     | RecognitionResult resultIndex results \<Rightarrow>
         if recognition s then recognition_onresult resultIndex results s else s
     | RecognitionError err \<Rightarrow> if recognition s then recognition_onerror err s else s
     | Elapse \<Rightarrow> s)"

text \<open>Time passes to \<open>t\<close>: a handshake timer that is due by then fires first.\<close>

definition advance :: "environment \<Rightarrow> nat \<Rightarrow> session \<Rightarrow> session" where
  "advance env t s =
    (let s1 = (case timeout s of
                 None \<Rightarrow> s
               | Some due \<Rightarrow> if due \<le> t then timeout_callback env (s\<lparr>now := due\<rparr>) else s)
     in s1\<lparr>now := max (now s1) t\<rparr>)"

definition step :: "environment \<Rightarrow> nat \<times> event \<Rightarrow> session \<Rightarrow> session" where
  "step env e s = dispatch env (snd e) (advance env (fst e) s)"

fun run :: "environment \<Rightarrow> session \<Rightarrow> (nat \<times> event) list \<Rightarrow> session" where
  "run env s [] = s"
| "run env s (e # es) = run env (step env e s) es"

text \<open>A session: \<open>startRecording\<close> is called once, then events arrive.\<close>

definition session_of :: "environment \<Rightarrow> (nat \<times> event) list \<Rightarrow> session" where
  "session_of env es = run env (startRecording initial) es"

section \<open>Reachable states\<close>

text \<open>
  What holds of every state a session reaches, by the point where \<open>startRecording\<close> stands.
  While it waits, nothing has been reported and no provider has given a result; once it has
  returned, the results of the attempts are one of five lists, and they decide what was
  reported and whether the stream is still open.
\<close>

text \<open>The messages \<open>onError\<close> can carry: the two terminal ones, and a recognizer error other
  than \<open>no-speech\<close> and \<open>aborted\<close> after the 14 characters of its prefix.\<close>

definition terminal_error :: "string \<Rightarrow> bool" where
  "terminal_error msg = (msg = denied_msg \<or> msg = unavailable_msg)"

definition speech_error :: "string \<Rightarrow> bool" where
  "speech_error msg =
    (take 14 msg = ''Speech error: '' \<and> drop 14 msg \<noteq> ''no-speech''
     \<and> drop 14 msg \<noteq> ''aborted'')"

definition all_failed :: "(provider_name \<times> bool) list" where
  "all_failed = [(deepgram, False), (assemblyai, False), (webspeech, False)]"

definition waiting_ok :: "session \<Rightarrow> bool" where
  "waiting_ok s =
    (verdicts s = [] \<and> errors s = [] \<and> \<not> isRecording s \<and> \<not> recognition s)"

definition returned_ok :: "session \<Rightarrow> bool" where
  "returned_ok s =
    (attempts s = map fst (verdicts s) \<and>
     (verdicts s = [] \<and> stream s = None \<and> \<not> isRecording s \<and> \<not> recognition s
        \<and> errors s = [(denied_msg, False)]
      \<or> verdicts s = [(deepgram, True)] \<and> stream s \<noteq> None \<and> \<not> recognition s
        \<and> errors s = []
      \<or> verdicts s = [(deepgram, False), (assemblyai, True)] \<and> stream s \<noteq> None
        \<and> \<not> recognition s \<and> errors s = []
      \<or> verdicts s = [(deepgram, False), (assemblyai, False), (webspeech, True)]
        \<and> stream s = Some ended \<and> list_all speech_error (map fst (errors s))
      \<or> verdicts s = all_failed \<and> stream s = Some ended \<and> \<not> isRecording s
        \<and> \<not> recognition s \<and> errors s = [(unavailable_msg, False)]))"

definition chain_inv :: "session \<Rightarrow> bool" where
  "chain_inv s =
    (case suspended s of
       NotStarted \<Rightarrow> False
     | AwaitGetUserMedia \<Rightarrow>
         waiting_ok s \<and> \<not> socketRef s \<and> attempts s = [] \<and> socket s = None
         \<and> timeout s = None \<and> stream s = None
     | AwaitConfig \<Rightarrow>
         waiting_ok s \<and> \<not> socketRef s \<and> attempts s = [deepgram] \<and> socket s = None
         \<and> timeout s = None \<and> stream s \<noteq> None
     | AwaitHandshake \<Rightarrow>
         waiting_ok s \<and> \<not> socketRef s \<and> attempts s = [deepgram]
         \<and> socket s = Some CONNECTING \<and> stream s \<noteq> None
     | Returned \<Rightarrow> timeout s = None \<and> returned_ok s)"

definition mic_inv :: "session \<Rightarrow> bool" where
  "mic_inv s =
    (acquired s = (if stream s = None then 0 else 1)
     \<and> released s = (if stream s = Some ended then 1 else 0)
     \<and> (stream s = Some live \<longrightarrow> streamRef s))"

definition errors_inv :: "session \<Rightarrow> bool" where
  "errors_inv s =
    (list_all (\<lambda>msg. terminal_error msg \<or> speech_error msg) (map fst (errors s))
     \<and> (recognition s \<or> list_all terminal_error (map fst (errors s))))"

text \<open>
  The results of the attempts of a session that got its stream, by whether the streaming
  provider proved viable: the batch provider is attempted exactly when the streaming one
  failed, the local provider exactly when the batch one failed too, in that order; the
  batch attempt succeeds exactly when the recorder starts and the local one exactly when
  the recognizer starts.
\<close>

definition chain_outcome :: "environment \<Rightarrow> bool \<Rightarrow> (provider_name \<times> bool) list" where
  "chain_outcome env streaming =
    (deepgram, streaming) #
    (if streaming then []
     else (assemblyai, recorder env = RecorderStarts) #
          (if recorder env = RecorderStarts then []
           else [(webspeech, speech env = RecognitionStarts)]))"

definition order_inv :: "environment \<Rightarrow> session \<Rightarrow> bool" where
  "order_inv env s =
    (verdicts s = [] \<or> verdicts s = chain_outcome env True
     \<or> verdicts s = chain_outcome env False)"

text \<open>Two states that agree on everything the invariants read.\<close>

definition same_control :: "session \<Rightarrow> session \<Rightarrow> bool" where
  "same_control s s' =
    (suspended s' = suspended s \<and> verdicts s' = verdicts s \<and> attempts s' = attempts s
     \<and> errors s' = errors s \<and> isRecording s' = isRecording s
     \<and> recognition s' = recognition s \<and> socketRef s' = socketRef s
     \<and> socket s' = socket s \<and> timeout s' = timeout s \<and> stream s' = stream s
     \<and> streamRef s' = streamRef s \<and> acquired s' = acquired s \<and> released s' = released s)"

section \<open>Example sessions\<close>

definition env_all :: environment where
  "env_all = \<lparr>recorder = RecorderStarts, speech = RecognitionStarts\<rparr>"

definition env_local :: environment where
  "env_local = \<lparr>recorder = ConstructorThrows, speech = RecognitionStarts\<rparr>"

definition env_none :: environment where
  "env_none = \<lparr>recorder = ConstructorThrows, speech = NoSpeechRecognition\<rparr>"

text \<open>A recorded chunk of 10001 bytes.\<close>

definition clip :: blob where
  "clip = replicate 10001 0"

text \<open>The microphone is granted and the streaming configuration is refused, so the chain
  goes on to the batch provider (or, where the recorder cannot be made, beyond).\<close>

definition no_streaming :: "(nat \<times> event) list" where
  "no_streaming = [(0, GetUserMedia True), (100, ConfigSettled ConfigNotOk)]"

text \<open>One chunk is recorded, the interval fires, and the request settles with \<open>r\<close>.\<close>

definition one_submission :: "fetch_result \<Rightarrow> (nat \<times> event) list" where
  "one_submission r =
    no_streaming @ [(1100, DataAvailable clip), (3100, IntervalTick), (3400, FetchSettled r)]"

text \<open>The microphone is granted and the socket is created 100 ms after the start.\<close>

definition connecting :: "(nat \<times> event) list" where
  "connecting = [(0, GetUserMedia True), (100, ConfigSettled ConfigOk)]"

text \<open>The streaming attempt of a session whose configuration request settles with a key at
  time \<open>t0\<close>: the socket is created and the timer armed at \<open>t0\<close>.\<close>

definition handshake_started :: "environment \<Rightarrow> (nat \<times> event) list \<Rightarrow> nat \<Rightarrow> session" where
  "handshake_started env es t0 = step env (t0, ConfigSettled ConfigOk) (session_of env es)"

text \<open>The same attempt after further events \<open>mid\<close>; the theorems take those that leave the
  handshake pending.\<close>

definition handshake_pending ::
  "environment \<Rightarrow> (nat \<times> event) list \<Rightarrow> nat \<Rightarrow> (nat \<times> event) list \<Rightarrow> session" where
  "handshake_pending env es t0 mid = run env (handshake_started env es t0) mid"

section \<open>Theorems\<close>

subsection \<open>Language mapping\<close>

lemma getDeepgramLanguage_listed:
  "map getDeepgramLanguage (map fst languageMap) = map (JSString \<circ> snd) languageMap"
  by (simp add: getDeepgramLanguage_def get_property_def languageMap_def js_or_def)

lemma getDeepgramLanguage_default:
  assumes "lang \<notin> set (map fst languageMap)" and "lang \<notin> set (map fst Object_prototype)"
  shows "getDeepgramLanguage lang = JSString ''en-US''"
proof -
  have "map_of languageMap lang = None"
    using assms(1) by (simp add: map_of_eq_None_iff)
  moreover have "map_of Object_prototype lang = None"
    using assms(2) by (simp add: map_of_eq_None_iff)
  ultimately show ?thesis
    by (simp add: getDeepgramLanguage_def get_property_def js_or_def)
qed

lemma getDeepgramLanguage_empty: "getDeepgramLanguage [] = JSString ''en-US''"
  by (simp add: getDeepgramLanguage_def get_property_def languageMap_def
      Object_prototype_def js_or_def)

text \<open>
  Claim C10 (the mapping is total: the twelve listed codes map to their streaming codes and
  every other string maps to \<open>'en-US'\<close>). The listed codes and the empty string behave as
  claimed (\<open>getDeepgramLanguage_listed\<close>, \<open>getDeepgramLanguage_empty\<close>), and so does every
  string that names no inherited property (\<open>getDeepgramLanguage_default\<close>). The string
  \<open>constructor\<close> is not listed, yet the lookup finds the inherited property and the function
  returns the \<open>Object\<close> constructor instead of the default, against its declared return type
  \<open>string\<close>.
\<close>

theorem getDeepgramLanguage_constructor:
  "getDeepgramLanguage ''constructor'' = JSFunction ''Object'' \<and>
   getDeepgramLanguage ''constructor'' \<noteq> JSString ''en-US'' \<and>
   ''constructor'' \<notin> set (map fst languageMap)"
  by (simp add: getDeepgramLanguage_def get_property_def languageMap_def
      Object_prototype_def js_or_def)

subsection \<open>PCM conversion\<close>

lemma sint_ToInt16:
  assumes "- 32768 \<le> js_truncate x" and "js_truncate x \<le> 32767"
  shows "sint (ToInt16 x) = js_truncate x"
proof -
  have "signed_take_bit 15 (js_truncate x) = js_truncate x"
    using assms by (intro signed_take_bit_int_eq_self) simp_all
  then show ?thesis
    by (simp add: ToInt16_def sint_sbintrunc')
qed

lemma js_truncate_clamped:
  fixes y :: real
  assumes "- 32768 \<le> y" and "y \<le> 32767"
  shows "- 32768 \<le> js_truncate y \<and> js_truncate y \<le> 32767"
proof (cases "y < 0")
  case True
  then have "js_truncate y = \<lceil>y\<rceil>" by (simp add: js_truncate_def)
  moreover have "- 32768 \<le> \<lceil>y\<rceil>" using assms(1) by (simp add: le_ceiling_iff)
  moreover have "\<lceil>y\<rceil> \<le> 32767" using assms(2) by (simp add: ceiling_le_iff)
  ultimately show ?thesis by simp
next
  case False
  then have "js_truncate y = \<lfloor>y\<rfloor>" by (simp add: js_truncate_def)
  moreover have "- 32768 \<le> \<lfloor>y\<rfloor>" using assms(1) by (simp add: le_floor_iff)
  moreover have "\<lfloor>y\<rfloor> \<le> 32767" using assms(2) by (simp add: floor_le_iff)
  ultimately show ?thesis by simp
qed

lemma sint_pcm_sample:
  "sint (pcm_sample x) = js_truncate (max (- 32768) (min 32767 (x * 32768)))"
  unfolding pcm_sample_def
  by (rule sint_ToInt16) (simp_all add: js_truncate_clamped)

lemma pcm_sample_in_range:
  assumes "- 1 \<le> x" and "x \<le> 1"
  shows "sint (pcm_sample x) = min 32767 (js_truncate (x * 32768))"
proof -
  have lo: "- 32768 \<le> x * 32768" using assms(1) by simp
  show ?thesis
  proof (cases "x * 32768 \<le> 32767")
    case True
    then have "max (- 32768) (min 32767 (x * 32768)) = x * 32768"
      using lo by simp
    moreover have "js_truncate (x * 32768) \<le> 32767"
      using js_truncate_clamped [OF lo True] by simp
    ultimately show ?thesis by (simp add: sint_pcm_sample)
  next
    case False
    then have big: "32767 < x * 32768" by simp
    then have "max (- 32768) (min 32767 (x * 32768)) = 32767" by simp
    moreover have "32767 \<le> js_truncate (x * 32768)"
      using big by (simp add: js_truncate_def le_floor_iff)
    ultimately show ?thesis by (simp add: sint_pcm_sample js_truncate_def)
  qed
qed

text \<open>
  Claim C4: a block of \<open>N\<close> samples in \<open>[-1, 1]\<close> converts to exactly \<open>N\<close> 16-bit samples;
  each output is the truncated product capped at 32767, so it lies in \<open>[-32768, 32767]\<close>
  by clamping and is never a wrapped value; \<open>-1.0\<close> gives \<open>-32768\<close> and \<open>+1.0\<close> gives
  \<open>32767\<close>.
\<close>

theorem pcmData_clamped:
  assumes "\<forall>x \<in> set inputData. - 1 \<le> x \<and> x \<le> 1"
  shows "length (pcmData inputData) = length inputData
    \<and> (\<forall>i < length inputData.
          sint (pcmData inputData ! i) = min 32767 (js_truncate (inputData ! i * 32768))
        \<and> - 32768 \<le> sint (pcmData inputData ! i)
        \<and> sint (pcmData inputData ! i) \<le> 32767)
    \<and> sint (pcm_sample (- 1)) = - 32768
    \<and> sint (pcm_sample 1) = 32767"
proof (intro conjI allI impI)
  show "length (pcmData inputData) = length inputData"
    by (simp add: pcmData_def)
next
  fix i assume i: "i < length inputData"
  then have r: "- 1 \<le> inputData ! i" "inputData ! i \<le> 1"
    using assms by (simp_all add: nth_mem)
  have e: "pcmData inputData ! i = pcm_sample (inputData ! i)"
    using i by (simp add: pcmData_def)
  show "sint (pcmData inputData ! i) = min 32767 (js_truncate (inputData ! i * 32768))"
    using pcm_sample_in_range [OF r] e by simp
  have "- 32768 \<le> inputData ! i * 32768" using r(1) by simp
  then have "- 32768 \<le> js_truncate (inputData ! i * 32768)"
    by (simp add: js_truncate_def le_floor_iff le_ceiling_iff)
  then show "- 32768 \<le> sint (pcmData inputData ! i)"
    using pcm_sample_in_range [OF r] e by simp
  show "sint (pcmData inputData ! i) \<le> 32767"
    using pcm_sample_in_range [OF r] e by simp
next
  show "sint (pcm_sample (- 1)) = - 32768"
    by (simp add: pcm_sample_def ToInt16_def js_truncate_def)
next
  show "sint (pcm_sample 1) = 32767"
    by (simp add: pcm_sample_def ToInt16_def js_truncate_def)
qed

theorem pcmData_clamped_witness:
  "list_all (\<lambda>x. - 1 \<le> x \<and> x \<le> 1) [- 1, 1 / 2, 1 :: real]
   \<and> length (pcmData [- 1, 1 / 2, 1]) = 3
   \<and> sint (pcmData [- 1, 1 / 2, 1] ! 0) = - 32768
   \<and> sint (pcmData [- 1, 1 / 2, 1] ! 1) = 16384
   \<and> sint (pcmData [- 1, 1 / 2, 1] ! 2) = 32767"
proof -
  have h: "\<forall>x \<in> set [- 1, 1 / 2, 1 :: real]. - 1 \<le> x \<and> x \<le> 1" by simp
  note c = pcmData_clamped [OF h]
  have l: "length (pcmData [- 1, 1 / 2, 1]) = 3"
    using c by simp
  have "sint (pcmData [- 1, 1 / 2, 1] ! 0) = min 32767 (js_truncate (- 1 * 32768))"
    using c by simp
  then have a: "sint (pcmData [- 1, 1 / 2, 1] ! 0) = - 32768"
    by (simp add: js_truncate_def)
  have "sint (pcmData [- 1, 1 / 2, 1] ! 1) = min 32767 (js_truncate (1 / 2 * 32768))"
    using c by simp
  then have b: "sint (pcmData [- 1, 1 / 2, 1] ! 1) = 16384"
    by (simp add: js_truncate_def)
  have "sint (pcmData [- 1, 1 / 2, 1] ! 2) = min 32767 (js_truncate (1 * 32768))"
    using c by simp
  then have d: "sint (pcmData [- 1, 1 / 2, 1] ! 2) = 32767"
    by (simp add: js_truncate_def)
  from l a b d show ?thesis by simp
qed

subsection \<open>Invariants of a session\<close>

text \<open>The handlers unfolded, for evaluating a step; and with them the examples, for
  evaluating a whole session.\<close>

lemmas handler_defs = dispatch_def getUserMedia_resolved_def getUserMedia_rejected_def
  startDeepgram_def startRecording_resume_def attempt_AssemblyAI_def startAssemblyAI_def
  attempt_WebSpeech_def startWebSpeech_def ondataavailable_def transcribeInterval_tick_def
  fetch_settled_def onTranscript_def onError_def stopRecording_def stop_tracks_def
  socket_close_def socket_onopen_def socket_onerror_def socket_onmessage_def
  timeout_callback_def resolve_def recognition_onresult_def recognition_onerror_def
  onaudioprocess_def Let_def

lemmas eval_defs = session_of_def step_def advance_def handler_defs initial_def
  startRecording_def response_ok_def POST_def env_all_def env_local_def env_none_def
  no_streaming_def one_submission_def connecting_def handshake_started_def
  handshake_pending_def

lemma length_clip: "length clip = 10001"
  by (simp add: clip_def)

lemma not_live [simp]: "(y \<noteq> live) = (y = ended)"
  by (cases y) auto

lemma speech_error_onerror:
  assumes "err \<noteq> ''no-speech''" "err \<noteq> ''aborted''"
  shows "speech_error (''Speech error: '' @ err)"
  using assms by (simp add: speech_error_def)

lemma chain_inv_start: "chain_inv (startRecording initial)"
  by (simp add: chain_inv_def waiting_ok_def startRecording_def initial_def)

lemma chain_inv_resume:
  assumes "waiting_ok s" "attempts s = [deepgram]" "stream s \<noteq> None"
  shows "returned_ok (startRecording_resume env b s)"
  using assms
  by (cases "recorder env"; cases "speech env"; cases b)
     (auto simp: returned_ok_def waiting_ok_def all_failed_def startRecording_resume_def
      attempt_AssemblyAI_def startAssemblyAI_def attempt_WebSpeech_def startWebSpeech_def
      onError_def stop_tracks_def Let_def)

lemma resume_returned:
  "suspended (startRecording_resume env b s) = Returned"
  "timeout (startRecording_resume env b s) = timeout s"
  by (auto simp: startRecording_resume_def attempt_AssemblyAI_def startAssemblyAI_def
      attempt_WebSpeech_def startWebSpeech_def onError_def stop_tracks_def Let_def
      split: recorder_support.splits speech_support.splits)

lemma returned_stable:
  assumes "suspended s = Returned" "timeout s = None"
  shows "suspended (step env e s) = Returned \<and> timeout (step env e s) = None
    \<and> verdicts (step env e s) = verdicts s \<and> attempts (step env e s) = attempts s"
  using assms
  by (cases e; cases "snd e")
     (auto simp: step_def advance_def handler_defs
      split: message.splits fetch_result.splits option.splits prod.splits)

lemma chain_inv_advance:
  assumes "chain_inv s"
  shows "chain_inv (advance env t s)"
proof (cases "suspended s = AwaitHandshake \<and> (\<exists>due. timeout s = Some due \<and> due \<le> t)")
  case True
  then obtain due where d: "timeout s = Some due" "due \<le> t"
    and h: "suspended s = AwaitHandshake"
    by auto
  let ?s = "socket_close (s\<lparr>now := due, timeout := None\<rparr>)"
  have w: "waiting_ok ?s" "attempts ?s = [deepgram]" "stream ?s \<noteq> None"
    using assms h by (auto simp: chain_inv_def waiting_ok_def socket_close_def)
  have "suspended ?s = AwaitHandshake" using h by (simp add: socket_close_def)
  then have e: "advance env t s =
      (startRecording_resume env False ?s)
        \<lparr>now := max (now (startRecording_resume env False ?s)) t\<rparr>"
    using d by (simp add: advance_def timeout_callback_def resolve_def Let_def)
  have r: "returned_ok (startRecording_resume env False ?s)"
    by (rule chain_inv_resume [OF w])
  have "suspended (startRecording_resume env False ?s) = Returned"
    "timeout (startRecording_resume env False ?s) = None"
    by (simp_all add: resume_returned socket_close_def)
  with r show ?thesis unfolding e by (simp add: chain_inv_def returned_ok_def)
next
  case False
  then have "advance env t s = s\<lparr>now := max (now s) t\<rparr>"
    using assms
    by (auto simp: advance_def chain_inv_def Let_def split: option.splits suspension.splits)
  then show ?thesis using assms
    by (auto simp: chain_inv_def returned_ok_def waiting_ok_def split: suspension.splits)
qed

lemma chain_inv_resume':
  assumes "waiting_ok s" "attempts s = [deepgram]" "stream s \<noteq> None" "timeout s = None"
  shows "chain_inv (startRecording_resume env b s)"
  using chain_inv_resume [OF assms(1-3)] assms(4)
  by (simp add: chain_inv_def resume_returned)

lemma chain_inv_same_control:
  assumes "same_control s s'" "chain_inv s"
  shows "chain_inv s'"
proof -
  have "returned_ok s' = returned_ok s" "waiting_ok s' = waiting_ok s"
    using assms(1) by (simp_all add: same_control_def returned_ok_def waiting_ok_def)
  then show ?thesis
    using assms by (cases "suspended s") (simp_all add: same_control_def chain_inv_def)
qed

lemma same_control_handlers:
  "same_control s (socket_onmessage msg s)"
  "same_control s (onaudioprocess inputData s)"
  "same_control s (ondataavailable data s)"
  "same_control s (transcribeInterval_tick s)"
  "same_control s (fetch_settled r (s\<lparr>inflight := n\<rparr>))"
  "same_control s (recognition_onresult resultIndex results s)"
  by (simp_all add: same_control_def socket_onmessage_def onaudioprocess_def ondataavailable_def
      transcribeInterval_tick_def fetch_settled_def recognition_onresult_def onTranscript_def
      Let_def split: message.splits option.splits fetch_result.splits prod.splits)

lemma same_control_refl: "same_control s s"
  by (simp add: same_control_def)

lemma stopRecording_control:
  "suspended (stopRecording s) = suspended s"
  "verdicts (stopRecording s) = verdicts s"
  "attempts (stopRecording s) = attempts s"
  "errors (stopRecording s) = errors s"
  "recognition (stopRecording s) = recognition s"
  "timeout (stopRecording s) = timeout s"
  "isRecording (stopRecording s) = False"
  "socketRef (stopRecording s) = False"
  "socket (stopRecording s) = (if socketRef s then socket (socket_close s) else socket s)"
  "stream (stopRecording s) = (if streamRef s then stream (stop_tracks s) else stream s)"
  by (simp_all add: stopRecording_def Let_def stop_tracks_def socket_close_def)

lemma stream_stopRecording:
  "(stream (stopRecording s) = None) = (stream s = None)"
  "stream s = Some ended \<Longrightarrow> stream (stopRecording s) = Some ended"
  by (simp_all add: stopRecording_control stop_tracks_def)

lemma chain_inv_stopRecording:
  assumes "chain_inv s"
  shows "chain_inv (stopRecording s)"
proof (cases "suspended s")
  case Returned
  then have r: "returned_ok s" "timeout s = None"
    using assms by (simp_all add: chain_inv_def)
  have "returned_ok (stopRecording s)"
    using r(1) unfolding returned_ok_def
    by (auto simp: stopRecording_control(1-8) stream_stopRecording)
  then show ?thesis using Returned r(2)
    by (simp add: chain_inv_def stopRecording_control)
qed (use assms in \<open>simp_all add: chain_inv_def waiting_ok_def stopRecording_control(1-9)
      stream_stopRecording\<close>)

lemma chain_inv_dispatch:
  assumes "chain_inv s"
  shows "chain_inv (dispatch env ev s)"
proof (cases ev)
  case StopRecording
  then show ?thesis using assms by (simp add: dispatch_def chain_inv_stopRecording)
next
  case (GetUserMedia granted)
  show ?thesis
  proof (cases "suspended s = AwaitGetUserMedia")
    case True
    then have "waiting_ok s" "\<not> socketRef s" "attempts s = []" "socket s = None"
      "timeout s = None" "stream s = None"
      using assms by (simp_all add: chain_inv_def)
    then show ?thesis using True GetUserMedia
      by (cases granted)
         (simp_all add: dispatch_def chain_inv_def waiting_ok_def returned_ok_def
          getUserMedia_resolved_def getUserMedia_rejected_def onError_def)
  next
    case False
    then show ?thesis using assms GetUserMedia by (simp add: dispatch_def)
  qed
next
  case (ConfigSettled config)
  show ?thesis
  proof (cases "suspended s = AwaitConfig")
    case True
    then have w: "waiting_ok s" "attempts s = [deepgram]" "stream s \<noteq> None"
      "timeout s = None"
      using assms by (auto simp: chain_inv_def)
    show ?thesis
    proof (cases config)
      case ConfigOk
      then show ?thesis using True assms ConfigSettled
        by (simp add: dispatch_def startDeepgram_def chain_inv_def waiting_ok_def)
    qed (use True ConfigSettled chain_inv_resume' [OF w] in
        \<open>simp_all add: dispatch_def startDeepgram_def\<close>)
  next
    case False
    then show ?thesis using assms ConfigSettled by (simp add: dispatch_def)
  qed
next
  case SocketOpen
  show ?thesis
  proof (cases "socket s = Some CONNECTING")
    case c: True
    let ?s = "s\<lparr>socket := Some OPEN, timeout := None, socketRef := True,
      provider := Some deepgram, processor := True\<rparr>"
    show ?thesis
    proof (cases "suspended s = AwaitHandshake")
      case True
      then have w: "waiting_ok ?s" "attempts ?s = [deepgram]" "stream ?s \<noteq> None"
        "timeout ?s = None"
        using assms by (auto simp: chain_inv_def waiting_ok_def)
      have "dispatch env ev s = startRecording_resume env True ?s"
        using SocketOpen c True by (simp add: dispatch_def socket_onopen_def resolve_def)
      then show ?thesis using chain_inv_resume' [OF w] by simp
    next
      case False
      then have "dispatch env ev s = ?s"
        using SocketOpen c by (simp add: dispatch_def socket_onopen_def resolve_def)
      then show ?thesis using assms False c
        by (auto simp: chain_inv_def returned_ok_def waiting_ok_def split: suspension.splits)
    qed
  next
    case False
    then show ?thesis using assms SocketOpen by (simp add: dispatch_def)
  qed
next
  case SocketError
  show ?thesis
  proof (cases "socket s = Some CONNECTING \<or> socket s = Some OPEN
      \<or> socket s = Some CLOSING")
    case c: True
    let ?s = "s\<lparr>socket := Some CLOSED, timeout := None\<rparr>"
    show ?thesis
    proof (cases "suspended s = AwaitHandshake")
      case True
      then have w: "waiting_ok ?s" "attempts ?s = [deepgram]" "stream ?s \<noteq> None"
        "timeout ?s = None"
        using assms by (auto simp: chain_inv_def waiting_ok_def)
      have "dispatch env ev s = startRecording_resume env False ?s"
        using SocketError c True by (simp add: dispatch_def socket_onerror_def resolve_def)
      then show ?thesis using chain_inv_resume' [OF w] by simp
    next
      case False
      then have "dispatch env ev s = ?s"
        using SocketError c by (simp add: dispatch_def socket_onerror_def resolve_def)
      then show ?thesis using assms False c
        by (auto simp: chain_inv_def returned_ok_def waiting_ok_def split: suspension.splits)
    qed
  next
    case False
    then show ?thesis using assms SocketError by (simp add: dispatch_def)
  qed
next
  case SocketClose
  show ?thesis
  proof (cases "socket s = Some OPEN \<or> socket s = Some CLOSING")
    case True
    then have "suspended s = Returned"
      using assms by (cases "suspended s") (auto simp: chain_inv_def)
    then show ?thesis using assms SocketClose True
      by (simp add: dispatch_def chain_inv_def returned_ok_def)
  next
    case False
    then show ?thesis using assms SocketClose by (simp add: dispatch_def)
  qed
next
  case (RecognitionError err)
  show ?thesis
  proof (cases "recognition s")
    case True
    then have p: "suspended s = Returned"
      using assms by (cases "suspended s") (auto simp: chain_inv_def waiting_ok_def)
    then have v: "verdicts s = [(deepgram, False), (assemblyai, False), (webspeech, True)]"
      "stream s = Some ended" "attempts s = map fst (verdicts s)" "timeout s = None"
      "list_all speech_error (map fst (errors s))"
      using assms True by (auto simp: chain_inv_def returned_ok_def)
    show ?thesis
    proof (cases "err \<noteq> ''no-speech'' \<and> err \<noteq> ''aborted''")
      case True
      then have e: "dispatch env ev s = onError (''Speech error: '' @ err) s"
        using RecognitionError \<open>recognition s\<close>
        by (simp add: dispatch_def recognition_onerror_def)
      have "speech_error (''Speech error: '' @ err)"
        using True by (intro speech_error_onerror) blast+
      then have "returned_ok (onError (''Speech error: '' @ err) s)"
        using v by (simp add: returned_ok_def onError_def)
      then show ?thesis unfolding e using p v(4)
        by (simp add: chain_inv_def onError_def)
    next
      case False
      then have "dispatch env ev s = s"
        using RecognitionError by (auto simp: dispatch_def recognition_onerror_def)
      then show ?thesis using assms by simp
    qed
  next
    case False
    then show ?thesis using assms RecognitionError by (simp add: dispatch_def)
  qed
next
  case Elapse
  then show ?thesis using assms by (simp add: dispatch_def)
qed (use assms in \<open>auto simp: dispatch_def same_control_handlers
      intro: chain_inv_same_control [rotated]\<close>)

lemma chain_inv_step: "chain_inv s \<Longrightarrow> chain_inv (step env e s)"
  by (simp add: step_def chain_inv_dispatch chain_inv_advance)

lemma chain_inv_run: "chain_inv s \<Longrightarrow> chain_inv (run env s es)"
  by (induction es arbitrary: s) (simp_all add: chain_inv_step)

lemma chain_inv_session: "chain_inv (session_of env es)"
  by (simp add: session_of_def chain_inv_run chain_inv_start)

subsection \<open>Microphone accounting\<close>

lemma mic_inv_same_control:
  assumes "same_control s s'" "mic_inv s"
  shows "mic_inv s'"
  using assms by (simp add: same_control_def mic_inv_def)

lemma mic_inv_stop_tracks: "mic_inv s \<Longrightarrow> mic_inv (stop_tracks s)"
  by (simp add: mic_inv_def stop_tracks_def)

lemma mic_inv_resume:
  assumes "mic_inv s"
  shows "mic_inv (startRecording_resume env b s)"
  using assms
  by (cases "recorder env"; cases "speech env"; cases b)
     (simp_all add: mic_inv_def startRecording_resume_def attempt_AssemblyAI_def
      startAssemblyAI_def attempt_WebSpeech_def startWebSpeech_def onError_def stop_tracks_def
      Let_def)

lemma mic_inv_resolve:
  assumes "mic_inv s"
  shows "mic_inv (resolve env b s)"
  using assms by (simp add: resolve_def mic_inv_resume)

lemma mic_inv_stopRecording:
  assumes "mic_inv s"
  shows "mic_inv (stopRecording s)"
  using assms
  by (simp add: mic_inv_def stopRecording_def stop_tracks_def socket_close_def Let_def)

lemma mic_inv_advance:
  assumes "mic_inv s"
  shows "mic_inv (advance env t s)"
proof -
  have a: "mic_inv (s\<lparr>now := n\<rparr>)" for n
    using assms by (simp add: mic_inv_def)
  have b: "mic_inv (socket_close (s\<lparr>now := n, timeout := None\<rparr>))" for n
    using assms by (simp add: mic_inv_def socket_close_def)
  have c: "mic_inv (x\<lparr>now := n\<rparr>)" if "mic_inv x" for x n
    using that by (simp add: mic_inv_def)
  show ?thesis
    by (cases "timeout s")
       (simp_all add: advance_def Let_def timeout_callback_def a b c mic_inv_resolve)
qed

lemma mic_inv_dispatch:
  assumes "mic_inv s" "chain_inv s"
  shows "mic_inv (dispatch env ev s)"
proof (cases ev)
  case StopRecording
  then show ?thesis using assms by (simp add: dispatch_def mic_inv_stopRecording)
next
  case (GetUserMedia granted)
  show ?thesis
  proof (cases "suspended s = AwaitGetUserMedia")
    case True
    then have "stream s = None" using assms(2) by (simp add: chain_inv_def)
    then show ?thesis using assms(1) True GetUserMedia
      by (cases granted)
         (simp_all add: dispatch_def mic_inv_def getUserMedia_resolved_def
          getUserMedia_rejected_def onError_def)
  next
    case False
    then show ?thesis using assms GetUserMedia by (simp add: dispatch_def)
  qed
next
  case (ConfigSettled config)
  have "mic_inv (s\<lparr>socket := Some CONNECTING, timeout := Some (now s + 5000),
      suspended := AwaitHandshake\<rparr>)"
    using assms(1) by (simp add: mic_inv_def)
  then show ?thesis using assms(1) ConfigSettled
    by (cases config) (simp_all add: dispatch_def startDeepgram_def mic_inv_resume)
next
  case SocketOpen
  have "mic_inv (s\<lparr>socket := Some OPEN, timeout := None, socketRef := True,
      provider := Some deepgram, processor := True\<rparr>)"
    using assms(1) by (simp add: mic_inv_def)
  then show ?thesis using assms(1) SocketOpen
    by (simp add: dispatch_def socket_onopen_def mic_inv_resolve)
next
  case SocketError
  have "mic_inv (s\<lparr>socket := Some CLOSED, timeout := None\<rparr>)"
    using assms(1) by (simp add: mic_inv_def)
  then show ?thesis using assms(1) SocketError
    by (simp add: dispatch_def socket_onerror_def mic_inv_resolve)
next
  case SocketClose
  then show ?thesis using assms(1) by (simp add: dispatch_def mic_inv_def)
next
  case (RecognitionError err)
  then show ?thesis using assms(1)
    by (simp add: dispatch_def recognition_onerror_def onError_def mic_inv_def)
next
  case Elapse
  then show ?thesis using assms by (simp add: dispatch_def)
qed (use assms(1) in \<open>auto simp: dispatch_def same_control_handlers
      intro: mic_inv_same_control [rotated]\<close>)

lemma mic_inv_step: "mic_inv s \<Longrightarrow> chain_inv s \<Longrightarrow> mic_inv (step env e s)"
  by (simp add: step_def mic_inv_dispatch mic_inv_advance chain_inv_advance)

lemma invs_run: "chain_inv s \<Longrightarrow> mic_inv s \<Longrightarrow> chain_inv (run env s es) \<and> mic_inv (run env s es)"
  by (induction es arbitrary: s) (simp_all add: chain_inv_step mic_inv_step)

lemma mic_inv_session: "mic_inv (session_of env es)"
proof -
  have "mic_inv (startRecording initial)"
    by (simp add: mic_inv_def startRecording_def initial_def)
  then show ?thesis
    by (simp add: session_of_def invs_run chain_inv_start)
qed

subsection \<open>Errors\<close>

lemma errors_inv_same_control:
  assumes "same_control s s'" "errors_inv s"
  shows "errors_inv s'"
  using assms by (simp add: same_control_def errors_inv_def)

lemma errors_inv_resume:
  assumes "errors_inv s"
  shows "errors_inv (startRecording_resume env b s)"
  using assms
  by (cases "recorder env"; cases "speech env"; cases b)
     (auto simp: errors_inv_def terminal_error_def startRecording_resume_def
      attempt_AssemblyAI_def startAssemblyAI_def attempt_WebSpeech_def startWebSpeech_def
      onError_def stop_tracks_def Let_def)

lemma errors_inv_resolve:
  assumes "errors_inv s"
  shows "errors_inv (resolve env b s)"
  using assms by (simp add: resolve_def errors_inv_resume)

lemma errors_inv_onError:
  assumes "errors_inv s" "recognition s" "speech_error msg"
  shows "errors_inv (onError msg s)"
  using assms by (simp add: errors_inv_def onError_def)

lemma errors_inv_advance:
  assumes "errors_inv s"
  shows "errors_inv (advance env t s)"
proof -
  have a: "errors_inv (s\<lparr>now := n\<rparr>)" for n
    using assms by (simp add: errors_inv_def)
  have b: "errors_inv (socket_close (s\<lparr>now := n, timeout := None\<rparr>))" for n
    using assms by (simp add: errors_inv_def socket_close_def)
  have c: "errors_inv (x\<lparr>now := n\<rparr>)" if "errors_inv x" for x n
    using that by (simp add: errors_inv_def)
  show ?thesis
    by (cases "timeout s")
       (simp_all add: advance_def Let_def timeout_callback_def a b c errors_inv_resolve)
qed

lemma errors_inv_dispatch:
  assumes "errors_inv s"
  shows "errors_inv (dispatch env ev s)"
proof (cases ev)
  case StopRecording
  then show ?thesis using assms
    by (simp add: dispatch_def errors_inv_def stopRecording_control)
next
  case (GetUserMedia granted)
  then show ?thesis using assms
    by (cases granted)
       (auto simp: dispatch_def errors_inv_def terminal_error_def getUserMedia_resolved_def
        getUserMedia_rejected_def onError_def)
next
  case (ConfigSettled config)
  have "errors_inv (s\<lparr>socket := Some CONNECTING, timeout := Some (now s + 5000),
      suspended := AwaitHandshake\<rparr>)"
    using assms by (simp add: errors_inv_def)
  then show ?thesis using assms ConfigSettled
    by (cases config) (simp_all add: dispatch_def startDeepgram_def errors_inv_resume)
next
  case SocketOpen
  have "errors_inv (s\<lparr>socket := Some OPEN, timeout := None, socketRef := True,
      provider := Some deepgram, processor := True\<rparr>)"
    using assms by (simp add: errors_inv_def)
  then show ?thesis using assms SocketOpen
    by (simp add: dispatch_def socket_onopen_def errors_inv_resolve)
next
  case SocketError
  have "errors_inv (s\<lparr>socket := Some CLOSED, timeout := None\<rparr>)"
    using assms by (simp add: errors_inv_def)
  then show ?thesis using assms SocketError
    by (simp add: dispatch_def socket_onerror_def errors_inv_resolve)
next
  case SocketClose
  then show ?thesis using assms by (simp add: dispatch_def errors_inv_def)
next
  case (RecognitionError err)
  show ?thesis
  proof (cases "recognition s \<and> err \<noteq> ''no-speech'' \<and> err \<noteq> ''aborted''")
    case True
    then have "dispatch env ev s = onError (''Speech error: '' @ err) s"
      using RecognitionError by (simp add: dispatch_def recognition_onerror_def)
    moreover have "errors_inv (onError (''Speech error: '' @ err) s)"
    proof (rule errors_inv_onError)
      show "errors_inv s" by (rule assms)
      show "recognition s" using True by blast
      show "speech_error (''Speech error: '' @ err)"
        using True by (intro speech_error_onerror) blast+
    qed
    ultimately show ?thesis by (simp only:)
  next
    case False
    then have "dispatch env ev s = s"
      using RecognitionError by (auto simp: dispatch_def recognition_onerror_def)
    then show ?thesis using assms by simp
  qed
next
  case Elapse
  then show ?thesis using assms by (simp add: dispatch_def)
qed (use assms in \<open>auto simp: dispatch_def same_control_handlers
      intro: errors_inv_same_control [rotated]\<close>)

lemma errors_inv_run: "errors_inv s \<Longrightarrow> errors_inv (run env s es)"
  by (induction es arbitrary: s) (simp_all add: step_def errors_inv_dispatch errors_inv_advance)

lemma errors_inv_session: "errors_inv (session_of env es)"
proof -
  have "errors_inv (startRecording initial)"
    by (simp add: errors_inv_def startRecording_def initial_def)
  then show ?thesis
    by (simp add: session_of_def errors_inv_run)
qed

subsection \<open>What a session guarantees\<close>

lemma run_append: "run env s (es @ es') = run env (run env s es) es'"
  by (induction es arbitrary: s) simp_all

lemma session_of_append: "session_of env (es @ es') = run env (session_of env es) es'"
  by (simp add: session_of_def run_append)

lemma returned_stable_run:
  assumes "suspended s = Returned" "timeout s = None"
  shows "suspended (run env s es) = Returned \<and> verdicts (run env s es) = verdicts s
    \<and> attempts (run env s es) = attempts s"
  using assms
proof (induction es arbitrary: s)
  case Nil
  then show ?case by simp
next
  case (Cons e es)
  note st = returned_stable [OF Cons.prems, of env e]
  from st have "suspended (step env e s) = Returned" "timeout (step env e s) = None"
    by simp_all
  from Cons.IH [OF this] st show ?case by simp
qed

lemma stream_resume:
  "stream (startRecording_resume env b s) = stream s \<or>
   stream (startRecording_resume env b s) = Some ended \<and> stream s = Some live"
  by (cases "recorder env"; cases "speech env"; cases b)
     (simp_all add: startRecording_resume_def attempt_AssemblyAI_def
      startAssemblyAI_def attempt_WebSpeech_def startWebSpeech_def onError_def stop_tracks_def
      Let_def)

lemma stream_ended_advance:
  assumes "stream s = Some ended"
  shows "stream (advance env t s) = Some ended"
proof (cases "timeout s")
  case None
  then show ?thesis using assms by (simp add: advance_def)
next
  case (Some due)
  have "stream (resolve env False (socket_close (s\<lparr>now := due, timeout := None\<rparr>))) = Some ended"
    using assms stream_resume [of env False "socket_close (s\<lparr>now := due, timeout := None\<rparr>)"]
    by (auto simp: resolve_def socket_close_def)
  then show ?thesis using Some assms
    by (simp add: advance_def Let_def timeout_callback_def)
qed

lemma stream_ended_dispatch:
  assumes "stream s = Some ended" "chain_inv s"
  shows "stream (dispatch env ev s) = Some ended"
proof (cases ev)
  case StopRecording
  then show ?thesis using assms by (simp add: dispatch_def stream_stopRecording)
next
  case (GetUserMedia granted)
  have "suspended s \<noteq> AwaitGetUserMedia"
    using assms by (auto simp: chain_inv_def)
  then show ?thesis using assms GetUserMedia by (simp add: dispatch_def)
next
  case (ConfigSettled config)
  then show ?thesis using assms(1) stream_resume [of env False s]
    by (cases config) (auto simp: dispatch_def startDeepgram_def)
next
  case SocketOpen
  then show ?thesis
    using assms(1) stream_resume [of env True "s\<lparr>socket := Some OPEN, timeout := None,
      socketRef := True, provider := Some deepgram, processor := True\<rparr>"]
    by (auto simp: dispatch_def socket_onopen_def resolve_def)
next
  case SocketError
  then show ?thesis
    using assms(1) stream_resume [of env False "s\<lparr>socket := Some CLOSED, timeout := None\<rparr>"]
    by (auto simp: dispatch_def socket_onerror_def resolve_def)
next
  case SocketClose
  then show ?thesis using assms(1) by (simp add: dispatch_def)
next
  case (RecognitionError err)
  then show ?thesis using assms(1)
    by (simp add: dispatch_def recognition_onerror_def onError_def)
next
  case Elapse
  then show ?thesis using assms by (simp add: dispatch_def)
next
  case (SocketMessage msg)
  then show ?thesis
    using assms(1) same_control_handlers(1) [of s msg] by (auto simp: dispatch_def same_control_def)
next
  case (AudioProcess inputData)
  then show ?thesis
    using assms(1) same_control_handlers(2) [of s inputData] by (auto simp: dispatch_def same_control_def)
next
  case (DataAvailable data)
  then show ?thesis
    using assms(1) same_control_handlers(3) [of s data] by (auto simp: dispatch_def same_control_def)
next
  case IntervalTick
  then show ?thesis
    using assms(1) same_control_handlers(4) [of s] by (auto simp: dispatch_def same_control_def)
next
  case (FetchSettled r)
  then show ?thesis
    using assms(1) same_control_handlers(5) [of s r "inflight s - 1"]
    by (auto simp: dispatch_def same_control_def)
next
  case (RecognitionResult resultIndex results)
  then show ?thesis
    using assms(1) same_control_handlers(6) [of s resultIndex results]
    by (auto simp: dispatch_def same_control_def)
qed

lemma stream_ended_run:
  assumes "stream s = Some ended" "chain_inv s"
  shows "stream (run env s es) = Some ended"
  using assms
proof (induction es arbitrary: s)
  case Nil
  then show ?case by simp
next
  case (Cons e es)
  have "stream (step env e s) = Some ended"
    using Cons.prems
    by (simp add: step_def stream_ended_dispatch stream_ended_advance chain_inv_advance)
  moreover have "chain_inv (step env e s)"
    using Cons.prems by (simp add: chain_inv_step)
  ultimately show ?case using Cons.IH by simp
qed

lemma stream_None_advance: "(stream (advance env t s) = None) = (stream s = None)"
proof (cases "timeout s")
  case None
  then show ?thesis by (simp add: advance_def)
next
  case (Some due)
  let ?s = "socket_close (s\<lparr>now := due, timeout := None\<rparr>)"
  have "stream ?s = stream s" by (simp add: socket_close_def)
  then have "(stream (resolve env False ?s) = None) = (stream s = None)"
    using stream_resume [of env False ?s] by (auto simp: resolve_def)
  then show ?thesis using Some
    by (simp add: advance_def Let_def timeout_callback_def)
qed

lemma stop_releases:
  assumes "stream s \<noteq> None" "mic_inv s"
  shows "stream (step env (t, StopRecording) s) = Some ended"
proof -
  let ?a = "advance env t s"
  have n: "stream ?a \<noteq> None" using assms(1) by (simp add: stream_None_advance)
  have m: "mic_inv ?a" using assms(2) by (rule mic_inv_advance)
  have "stream (stopRecording ?a) = Some ended"
  proof (cases "stream ?a = Some live")
    case True
    then have "streamRef ?a" using m by (simp add: mic_inv_def)
    then show ?thesis using True by (simp add: stopRecording_control stop_tracks_def)
  next
    case False
    then have "stream ?a = Some ended" using n by (cases "stream ?a") auto
    then show ?thesis by (rule stream_stopRecording)
  qed
  then show ?thesis by (simp add: step_def dispatch_def)
qed

text \<open>
  Claim C6, as amended. In every session the stream is acquired at most once, and exactly
  once when access is granted; its live tracks are stopped at most once, and exactly once
  when it has ended. A session that returned with no provider attempted (access refused)
  holds no stream; when all three providers have failed, or the local provider has
  started, the stream has ended; and once a stream exists, a call of \<open>stopRecording\<close>
  ends it for the rest of the session.
\<close>

theorem microphone_accounting:
  "acquired (session_of env es) = (if stream (session_of env es) = None then 0 else 1)
   \<and> released (session_of env es) = (if stream (session_of env es) = Some ended then 1 else 0)
   \<and> (suspended (session_of env es) = Returned \<and> attempts (session_of env es) = []
        \<longrightarrow> stream (session_of env es) = None)
   \<and> (verdicts (session_of env es) = all_failed \<longrightarrow> stream (session_of env es) = Some ended)
   \<and> ((webspeech, True) \<in> set (verdicts (session_of env es))
        \<longrightarrow> stream (session_of env es) = Some ended)
   \<and> (stream (session_of env es) \<noteq> None
        \<longrightarrow> stream (session_of env (es @ (t, StopRecording) # es')) = Some ended)"
proof -
  let ?s = "session_of env es"
  have c: "chain_inv ?s" by (rule chain_inv_session)
  have m: "mic_inv ?s" by (rule mic_inv_session)
  have 1: "acquired ?s = (if stream ?s = None then 0 else 1)"
    and 2: "released ?s = (if stream ?s = Some ended then 1 else 0)"
    using m by (simp_all add: mic_inv_def)
  have 3: "stream ?s = None" if "suspended ?s = Returned \<and> attempts ?s = []"
    using c that by (auto simp: chain_inv_def returned_ok_def all_failed_def)
  have 4: "stream ?s = Some ended" if "verdicts ?s = all_failed"
    using c that
    by (cases "suspended ?s") (auto simp: chain_inv_def returned_ok_def waiting_ok_def all_failed_def)
  have 5: "stream ?s = Some ended" if "(webspeech, True) \<in> set (verdicts ?s)"
    using c that
    by (cases "suspended ?s") (auto simp: chain_inv_def returned_ok_def waiting_ok_def all_failed_def)
  have 6: "stream (session_of env (es @ (t, StopRecording) # es')) = Some ended"
    if "stream ?s \<noteq> None"
  proof -
    have "stream (step env (t, StopRecording) ?s) = Some ended"
      using that m by (rule stop_releases)
    moreover have "chain_inv (step env (t, StopRecording) ?s)"
      using c by (rule chain_inv_step)
    ultimately have "stream (run env (step env (t, StopRecording) ?s) es') = Some ended"
      by (rule stream_ended_run)
    then show ?thesis by (simp add: session_of_append)
  qed
  from 1 2 3 4 5 6 show ?thesis by blast
qed

theorem microphone_accounting_witness:
  "verdicts (session_of env_none no_streaming) = all_failed
   \<and> stream (session_of env_none no_streaming) = Some ended
   \<and> acquired (session_of env_none no_streaming) = 1
   \<and> released (session_of env_none no_streaming) = 1
   \<and> stream (session_of env_all connecting) = Some live
   \<and> released (session_of env_all connecting) = 0
   \<and> stream (session_of env_all (connecting @ (4100, SocketOpen) # [(9000, StopRecording)]))
       = Some ended
   \<and> released (session_of env_all (connecting @ (4100, SocketOpen) # [(9000, StopRecording)]))
       = 1
   \<and> suspended (session_of env_all [(0, GetUserMedia False)]) = Returned
   \<and> attempts (session_of env_all [(0, GetUserMedia False)]) = []
   \<and> acquired (session_of env_all [(0, GetUserMedia False)]) = 0"
proof -
  have v: "verdicts (session_of env_none no_streaming) = all_failed"
    by (simp add: eval_defs all_failed_def)
  have l: "stream (session_of env_all connecting) = Some live"
    by (simp add: eval_defs)
  have o: "stream (session_of env_all (connecting @ [(4100, SocketOpen)])) \<noteq> None"
    by (simp add: eval_defs)
  have r: "suspended (session_of env_all [(0, GetUserMedia False)]) = Returned"
    "attempts (session_of env_all [(0, GetUserMedia False)]) = []"
    by (simp_all add: eval_defs)
  note a = microphone_accounting [of env_none no_streaming]
  note b = microphone_accounting [of env_all connecting]
  note c = microphone_accounting [of env_all "connecting @ [(4100, SocketOpen)]" 9000 "[]"]
  note d = microphone_accounting
    [of env_all "connecting @ (4100, SocketOpen) # [(9000, StopRecording)]"]
  note e = microphone_accounting [of env_all "[(0, GetUserMedia False)]"]
  have 1: "stream (session_of env_none no_streaming) = Some ended"
    using a v by blast
  have 2: "acquired (session_of env_none no_streaming) = 1"
    "released (session_of env_none no_streaming) = 1"
    using a 1 by simp_all
  have 3: "released (session_of env_all connecting) = 0"
    using b l by simp
  have 4: "stream (session_of env_all (connecting @ (4100, SocketOpen) # [(9000, StopRecording)]))
       = Some ended"
    using c o by simp
  have 5: "released (session_of env_all (connecting @ (4100, SocketOpen) # [(9000, StopRecording)]))
       = 1"
    using d 4 by simp
  have 6: "acquired (session_of env_all [(0, GetUserMedia False)]) = 0"
    using e r by simp
  from v 1 2 l 3 4 5 r 6 show ?thesis by simp
qed

text \<open>Against claim C6 as stated: a session whose permission request is refused
  attempts no provider, and it acquires and releases nothing.\<close>

theorem refused_session_acquires_nothing:
  "suspended (session_of env_all [(0, GetUserMedia False)]) = Returned
   \<and> attempts (session_of env_all [(0, GetUserMedia False)]) = []
   \<and> map fst (errors (session_of env_all [(0, GetUserMedia False)])) = [denied_msg]
   \<and> acquired (session_of env_all [(0, GetUserMedia False)]) = 0
   \<and> released (session_of env_all [(0, GetUserMedia False)]) = 0"
  by (simp add: eval_defs)

text \<open>
  Claim C8: when all three providers have failed viability, \<open>onError\<close> has been called
  exactly once, with the exhaustion message and while \<open>isRecording\<close> was false, and
  whatever happens afterwards in the session (\<open>es'\<close>) neither adds an error nor makes
  \<open>isRecording\<close> true.
\<close>

theorem exhaustion_reported_once:
  assumes "verdicts (session_of env es) = all_failed"
  shows "errors (session_of env (es @ es')) = [(unavailable_msg, False)]
    \<and> \<not> isRecording (session_of env (es @ es'))"
proof -
  let ?s = "session_of env es"
  have c: "chain_inv ?s" by (rule chain_inv_session)
  have r: "suspended ?s = Returned"
    using c assms by (cases "suspended ?s") (auto simp: chain_inv_def waiting_ok_def all_failed_def)
  then have t: "timeout ?s = None" using c by (simp add: chain_inv_def)
  let ?s' = "session_of env (es @ es')"
  have "suspended ?s' = Returned" "verdicts ?s' = all_failed"
    using returned_stable_run [OF r t, of env es'] assms by (simp_all add: session_of_append)
  moreover have "chain_inv ?s'" by (rule chain_inv_session)
  ultimately show ?thesis
    by (auto simp: chain_inv_def returned_ok_def all_failed_def)
qed

theorem exhaustion_reported_once_witness:
  "verdicts (session_of env_none no_streaming) = all_failed
   \<and> errors (session_of env_none no_streaming) = [(unavailable_msg, False)]
   \<and> \<not> isRecording (session_of env_none no_streaming)
   \<and> errors (session_of env_none (no_streaming @ [(200, RecognitionError ''network''), (300, StopRecording)]))
       = [(unavailable_msg, False)]
   \<and> \<not> isRecording (session_of env_none
        (no_streaming @ [(200, RecognitionError ''network''), (300, StopRecording)]))"
proof -
  have v: "verdicts (session_of env_none no_streaming) = all_failed"
    by (simp add: eval_defs all_failed_def)
  show ?thesis
    using v exhaustion_reported_once [OF v, of "[]"]
      exhaustion_reported_once [OF v, of "[(200, RecognitionError ''network''), (300, StopRecording)]"]
    by simp
qed

text \<open>
  Claim C9, as amended. \<open>onError\<close> is called only for the permission denial, for the
  exhaustion of the providers, and for a recognizer error other than \<open>no-speech\<close> and
  \<open>aborted\<close> once the local provider's recognizer has been started. No failure of the
  streaming or the batch provider is surfaced: while \<open>startRecording\<close> has not returned,
  and in every session whose viable provider is the streaming or the batch one, \<open>onError\<close>
  has not been called, whatever has failed since. A refused permission gives exactly the
  denial, an exhausted chain exactly the exhaustion message, and with the local provider
  viable every message is a recognizer error.
\<close>

theorem surfaced_errors:
  "list_all (\<lambda>msg. terminal_error msg \<or> speech_error msg) (map fst (errors (session_of env es)))
   \<and> (recognition (session_of env es)
      \<or> list_all terminal_error (map fst (errors (session_of env es))))
   \<and> (suspended (session_of env es) \<noteq> Returned \<longrightarrow> errors (session_of env es) = [])
   \<and> (verdicts (session_of env es) = [(deepgram, True)]
       \<or> verdicts (session_of env es) = [(deepgram, False), (assemblyai, True)]
      \<longrightarrow> errors (session_of env es) = [])
   \<and> (suspended (session_of env es) = Returned \<and> verdicts (session_of env es) = []
      \<longrightarrow> errors (session_of env es) = [(denied_msg, False)])
   \<and> (verdicts (session_of env es) = all_failed
      \<longrightarrow> errors (session_of env es) = [(unavailable_msg, False)])
   \<and> ((webspeech, True) \<in> set (verdicts (session_of env es))
      \<longrightarrow> list_all speech_error (map fst (errors (session_of env es))))"
proof -
  let ?s = "session_of env es"
  have c: "chain_inv ?s" by (rule chain_inv_session)
  have 1: "list_all (\<lambda>msg. terminal_error msg \<or> speech_error msg) (map fst (errors ?s))
      \<and> (recognition ?s \<or> list_all terminal_error (map fst (errors ?s)))"
    using errors_inv_session [of env es] by (simp add: errors_inv_def)
  have w: "errors ?s = [] \<and> verdicts ?s = []" if "suspended ?s \<noteq> Returned"
    using c that by (cases "suspended ?s") (simp_all add: chain_inv_def waiting_ok_def)
  have r: "returned_ok ?s" if "suspended ?s = Returned"
    using c that by (simp add: chain_inv_def)
  have 2: "errors ?s = []" if "suspended ?s \<noteq> Returned"
    using w that by blast
  have 3: "errors ?s = []"
    if "verdicts ?s = [(deepgram, True)]
      \<or> verdicts ?s = [(deepgram, False), (assemblyai, True)]"
  proof (cases "suspended ?s = Returned")
    case True
    then show ?thesis using r that by (auto simp: returned_ok_def all_failed_def)
  next
    case False
    then show ?thesis using w by blast
  qed
  have 4: "errors ?s = [(denied_msg, False)]"
    if "suspended ?s = Returned \<and> verdicts ?s = []"
    using r that by (auto simp: returned_ok_def all_failed_def)
  have 5: "errors ?s = [(unavailable_msg, False)]" if "verdicts ?s = all_failed"
  proof (cases "suspended ?s = Returned")
    case True
    then show ?thesis using r that by (auto simp: returned_ok_def all_failed_def)
  next
    case False
    then show ?thesis using w that by (simp add: all_failed_def)
  qed
  have 6: "list_all speech_error (map fst (errors ?s))"
    if "(webspeech, True) \<in> set (verdicts ?s)"
  proof (cases "suspended ?s = Returned")
    case True
    then show ?thesis using r that by (auto simp: returned_ok_def all_failed_def)
  next
    case False
    then show ?thesis using w by simp
  qed
  from 1 2 3 4 5 6 show ?thesis by blast
qed

theorem surfaced_errors_witness:
  "verdicts (session_of env_all (connecting @ [(300, SocketOpen), (5000, SocketError)]))
     = [(deepgram, True)]
   \<and> errors (session_of env_all (connecting @ [(300, SocketOpen), (5000, SocketError)])) = []
   \<and> verdicts (session_of env_all (one_submission Rejected))
     = [(deepgram, False), (assemblyai, True)]
   \<and> errors (session_of env_all (one_submission Rejected)) = []
   \<and> suspended (session_of env_all connecting) = AwaitHandshake
   \<and> errors (session_of env_all connecting) = []
   \<and> (webspeech, True) \<in> set (verdicts (session_of env_local
        (no_streaming @ [(200, RecognitionError ''network'')])))
   \<and> list_all speech_error (map fst (errors (session_of env_local
        (no_streaming @ [(200, RecognitionError ''network'')]))))
   \<and> suspended (session_of env_all [(0, GetUserMedia False)]) = Returned
   \<and> verdicts (session_of env_all [(0, GetUserMedia False)]) = []
   \<and> errors (session_of env_all [(0, GetUserMedia False)]) = [(denied_msg, False)]
   \<and> verdicts (session_of env_none no_streaming) = all_failed
   \<and> errors (session_of env_none no_streaming) = [(unavailable_msg, False)]"
proof -
  have a: "verdicts (session_of env_all (connecting @ [(300, SocketOpen), (5000, SocketError)]))
     = [(deepgram, True)]"
    by (simp add: eval_defs)
  have b: "verdicts (session_of env_all (one_submission Rejected))
     = [(deepgram, False), (assemblyai, True)]"
    by (simp add: eval_defs length_clip)
  have c: "suspended (session_of env_all connecting) = AwaitHandshake"
    by (simp add: eval_defs)
  have d: "(webspeech, True) \<in> set (verdicts (session_of env_local
        (no_streaming @ [(200, RecognitionError ''network'')])))"
    by (simp add: eval_defs)
  have e: "suspended (session_of env_all [(0, GetUserMedia False)]) = Returned"
    "verdicts (session_of env_all [(0, GetUserMedia False)]) = []"
    by (simp_all add: eval_defs)
  have f: "verdicts (session_of env_none no_streaming) = all_failed"
    by (simp add: eval_defs all_failed_def)
  show ?thesis
    using a b c d e f
      surfaced_errors [of env_all "connecting @ [(300, SocketOpen), (5000, SocketError)]"]
      surfaced_errors [of env_all "one_submission Rejected"]
      surfaced_errors [of env_all connecting]
      surfaced_errors [of env_local "no_streaming @ [(200, RecognitionError ''network'')]"]
      surfaced_errors [of env_all "[(0, GetUserMedia False)]"]
      surfaced_errors [of env_none no_streaming]
    by simp
qed

text \<open>Against claim C9 as stated: with the local provider running, a recognizer error
  \<open>network\<close> reaches \<open>onError\<close>, and it is neither of the two terminal messages.\<close>

theorem recognizer_error_surfaced:
  "map fst (errors (session_of env_local (no_streaming @ [(200, RecognitionError ''network'')])))
     = [''Speech error: network'']
   \<and> \<not> terminal_error ''Speech error: network''
   \<and> verdicts (session_of env_local (no_streaming @ [(200, RecognitionError ''network'')]))
     = [(deepgram, False), (assemblyai, False), (webspeech, True)]"
  by (simp add: eval_defs terminal_error_def denied_msg_def unavailable_msg_def)

subsection \<open>Order of the providers and the handshake window\<close>

lemma attempts_in_order:
  "attempts (session_of env es) = take (length (attempts (session_of env es))) [deepgram, assemblyai, webspeech]"
proof -
  let ?s = "session_of env es"
  have c: "chain_inv ?s" by (rule chain_inv_session)
  show ?thesis
  proof (cases "suspended ?s")
    case Returned
    then have "returned_ok ?s" using c by (simp add: chain_inv_def)
    then show ?thesis
      by (auto simp: returned_ok_def all_failed_def)
  qed (use c in \<open>auto simp: chain_inv_def\<close>)
qed

lemma handshake_started_state:
  assumes "suspended (session_of env es) = AwaitConfig" "now (session_of env es) \<le> t0"
  shows "handshake_started env es t0 =
    (session_of env es)\<lparr>now := t0, socket := Some CONNECTING, timeout := Some (t0 + 5000),
      suspended := AwaitHandshake\<rparr>"
proof -
  let ?s = "session_of env es"
  have "chain_inv ?s" by (rule chain_inv_session)
  then have "timeout ?s = None" using assms(1) by (simp add: chain_inv_def)
  then have "advance env t0 ?s = ?s\<lparr>now := t0\<rparr>"
    using assms(2) by (simp add: advance_def max_def)
  then show ?thesis using assms(1)
    by (simp add: handshake_started_def step_def dispatch_def startDeepgram_def)
qed

lemma resume_True:
  "startRecording_resume env True s =
    s\<lparr>verdicts := verdicts s @ [(deepgram, True)], isRecording := True, isConnecting := False,
      suspended := Returned\<rparr>"
  by (simp add: startRecording_resume_def Let_def)


lemma returned_dispatch:
  assumes "suspended s = Returned" "timeout s = None"
  shows "verdicts (dispatch env ev s) = verdicts s" "attempts (dispatch env ev s) = attempts s"
proof -
  have "advance env (now s) s = s"
    using assms(2) by (simp add: advance_def)
  then have "step env (now s, ev) s = dispatch env ev s"
    by (simp add: step_def)
  then show "verdicts (dispatch env ev s) = verdicts s" "attempts (dispatch env ev s) = attempts s"
    using returned_stable [OF assms, of env "(now s, ev)"] by simp_all
qed

lemma closing_dispatch:
  assumes "suspended s = Returned" "socket s = Some CLOSING"
  shows "socket (dispatch env ev s) = Some CLOSING \<or> socket (dispatch env ev s) = Some CLOSED"
proof (cases ev)
  case StopRecording
  then show ?thesis using assms
    by (simp add: dispatch_def stopRecording_control socket_close_def)
next
  case (GetUserMedia granted)
  then show ?thesis using assms by (simp add: dispatch_def)
next
  case (ConfigSettled config)
  then show ?thesis using assms by (simp add: dispatch_def)
next
  case SocketOpen
  then show ?thesis using assms by (simp add: dispatch_def)
next
  case SocketError
  then show ?thesis using assms by (simp add: dispatch_def socket_onerror_def resolve_def)
next
  case SocketClose
  then show ?thesis using assms by (simp add: dispatch_def)
next
  case (SocketMessage msg)
  then show ?thesis
    using assms same_control_handlers(1) [of s msg] by (auto simp: dispatch_def same_control_def)
next
  case (AudioProcess inputData)
  then show ?thesis
    using assms same_control_handlers(2) [of s inputData]
    by (auto simp: dispatch_def same_control_def)
next
  case (DataAvailable data)
  then show ?thesis
    using assms same_control_handlers(3) [of s data] by (auto simp: dispatch_def same_control_def)
next
  case IntervalTick
  then show ?thesis
    using assms same_control_handlers(4) [of s] by (auto simp: dispatch_def same_control_def)
next
  case (FetchSettled r)
  then show ?thesis
    using assms same_control_handlers(5) [of s r "inflight s - 1"]
    by (auto simp: dispatch_def same_control_def)
next
  case (RecognitionResult resultIndex results)
  then show ?thesis
    using assms same_control_handlers(6) [of s resultIndex results]
    by (auto simp: dispatch_def same_control_def)
next
  case (RecognitionError err)
  then show ?thesis using assms
    by (simp add: dispatch_def recognition_onerror_def onError_def)
next
  case Elapse
  then show ?thesis using assms by (simp add: dispatch_def)
qed

lemma resume_outcome:
  assumes "verdicts s = []"
  shows "verdicts (startRecording_resume env b s) = chain_outcome env b"
  using assms
  by (cases "recorder env"; cases "speech env"; cases b)
     (simp_all add: chain_outcome_def startRecording_resume_def attempt_AssemblyAI_def
      startAssemblyAI_def attempt_WebSpeech_def startWebSpeech_def onError_def stop_tracks_def
      Let_def)

lemma resume_attempts:
  "attempts (startRecording_resume env b s)
    = attempts s @ tl (map fst (chain_outcome env b))"
  by (cases "recorder env"; cases "speech env"; cases b)
     (simp_all add: chain_outcome_def startRecording_resume_def attempt_AssemblyAI_def
      startAssemblyAI_def attempt_WebSpeech_def startWebSpeech_def onError_def stop_tracks_def
      Let_def)

lemma order_inv_step:
  assumes "chain_inv s" "order_inv env s"
  shows "order_inv env (step env e s)"
proof (cases "suspended s = Returned")
  case True
  then have "timeout s = None" using assms(1) by (simp add: chain_inv_def)
  then have "verdicts (step env e s) = verdicts s"
    using returned_stable [OF True, of env e] by simp
  then show ?thesis using assms(2) by (simp add: order_inv_def)
next
  case False
  then have v: "verdicts s = []"
    using assms(1) by (cases "suspended s") (simp_all add: chain_inv_def waiting_ok_def)
  let ?a = "advance env (fst e) s"
  have a: "verdicts ?a = [] \<and> suspended ?a \<noteq> Returned \<or> verdicts ?a = chain_outcome env False \<and> suspended ?a = Returned"
  proof (cases "timeout s")
    case None
    then show ?thesis using v False by (simp add: advance_def)
  next
    case (Some due)
    then show ?thesis using v False
      by (auto simp: advance_def Let_def timeout_callback_def resolve_def socket_close_def
          resume_outcome resume_returned)
  qed
  have c: "chain_inv ?a" using assms(1) by (rule chain_inv_advance)
  show ?thesis
  proof (cases "suspended ?a = Returned")
    case True
    then have "timeout ?a = None" using c by (simp add: chain_inv_def)
    moreover have "advance env (now ?a) ?a = ?a"
      using calculation by (simp add: advance_def)
    ultimately have "verdicts (dispatch env (snd e) ?a) = verdicts ?a"
      using returned_stable [OF True, of env "(now ?a, snd e)"] by (simp add: step_def)
    then show ?thesis using a True by (simp add: order_inv_def step_def)
  next
    case n: False
    then have va: "verdicts ?a = []" using a by blast
    have "verdicts (dispatch env (snd e) ?a) = []
      \<or> verdicts (dispatch env (snd e) ?a) = chain_outcome env True
      \<or> verdicts (dispatch env (snd e) ?a) = chain_outcome env False"
    proof (cases "snd e")
      case StopRecording
      then show ?thesis using va by (simp add: dispatch_def stopRecording_control)
    next
      case (GetUserMedia granted)
      then show ?thesis using va
        by (simp add: dispatch_def getUserMedia_resolved_def getUserMedia_rejected_def
            onError_def)
    next
      case (ConfigSettled config)
      then show ?thesis using va
        by (cases config) (simp_all add: dispatch_def startDeepgram_def resume_outcome)
    next
      case SocketOpen
      then show ?thesis using va
        by (simp add: dispatch_def socket_onopen_def resolve_def resume_outcome)
    next
      case SocketError
      then show ?thesis using va
        by (simp add: dispatch_def socket_onerror_def resolve_def resume_outcome)
    next
      case SocketClose
      then show ?thesis using va by (simp add: dispatch_def)
    next
      case (RecognitionError err)
      then show ?thesis using va
        by (simp add: dispatch_def recognition_onerror_def onError_def)
    next
      case Elapse
      then show ?thesis using va by (simp add: dispatch_def)
    next
      case (SocketMessage msg)
      then show ?thesis
        using va same_control_handlers(1) [of ?a msg]
        by (auto simp: dispatch_def same_control_def)
    next
      case (AudioProcess inputData)
      then show ?thesis
        using va same_control_handlers(2) [of ?a inputData]
        by (auto simp: dispatch_def same_control_def)
    next
      case (DataAvailable data)
      then show ?thesis
        using va same_control_handlers(3) [of ?a data]
        by (auto simp: dispatch_def same_control_def)
    next
      case IntervalTick
      then show ?thesis
        using va same_control_handlers(4) [of ?a]
        by (auto simp: dispatch_def same_control_def)
    next
      case (FetchSettled r)
      then show ?thesis
        using va same_control_handlers(5) [of ?a r "inflight ?a - 1"]
        by (auto simp: dispatch_def same_control_def)
    next
      case (RecognitionResult resultIndex results)
      then show ?thesis
        using va same_control_handlers(6) [of ?a resultIndex results]
        by (auto simp: dispatch_def same_control_def)
    qed
    then show ?thesis by (simp add: order_inv_def step_def)
  qed
qed

lemma order_inv_run:
  "chain_inv s \<Longrightarrow> order_inv env s \<Longrightarrow> order_inv env (run env s es)"
  by (induction es arbitrary: s) (simp_all add: order_inv_step chain_inv_step)

lemma order_inv_session: "order_inv env (session_of env es)"
proof -
  have "order_inv env (startRecording initial)"
    by (simp add: order_inv_def startRecording_def initial_def)
  then show ?thesis
    by (simp add: session_of_def order_inv_run chain_inv_start)
qed


lemma socket_resume: "socket (startRecording_resume env b s) = socket s"
  by (cases "recorder env"; cases "speech env"; cases b)
     (simp_all add: startRecording_resume_def attempt_AssemblyAI_def
      startAssemblyAI_def attempt_WebSpeech_def startWebSpeech_def onError_def stop_tracks_def
      Let_def)

lemma returned_dispatch_suspended:
  assumes "suspended s = Returned" "timeout s = None"
  shows "suspended (dispatch env ev s) = Returned"
proof -
  have "advance env (now s) s = s"
    using assms(2) by (simp add: advance_def)
  then have "step env (now s, ev) s = dispatch env ev s"
    by (simp add: step_def)
  then show ?thesis
    using returned_stable [OF assms, of env "(now s, ev)"] by simp
qed

lemma pending_step:
  assumes "chain_inv s" "suspended s = AwaitHandshake" "timeout s = Some due"
  shows "suspended (step env e s) = AwaitHandshake \<and> timeout (step env e s) = Some due
    \<or> suspended (step env e s) = Returned"
proof (cases "due \<le> fst e")
  case True
  let ?a = "advance env (fst e) s"
  have "suspended ?a = Returned" "timeout ?a = None"
    using True assms(2,3)
    by (simp_all add: advance_def Let_def timeout_callback_def resolve_def socket_close_def
        resume_returned)
  then have "suspended (dispatch env (snd e) ?a) = Returned"
    by (rule returned_dispatch_suspended)
  then show ?thesis by (simp add: step_def)
next
  case False
  let ?a = "s\<lparr>now := max (now s) (fst e)\<rparr>"
  have a: "advance env (fst e) s = ?a"
    using False assms(3) by (simp add: advance_def)
  have c: "socket ?a = Some CONNECTING" "suspended ?a = AwaitHandshake" "timeout ?a = Some due"
    using assms by (simp_all add: chain_inv_def)
  have "suspended (dispatch env (snd e) ?a) = AwaitHandshake
      \<and> timeout (dispatch env (snd e) ?a) = Some due
    \<or> suspended (dispatch env (snd e) ?a) = Returned"
  proof (cases "snd e")
    case StopRecording
    then show ?thesis using c by (simp add: dispatch_def stopRecording_control)
  next
    case (GetUserMedia granted)
    then show ?thesis using c by (simp add: dispatch_def)
  next
    case (ConfigSettled config)
    then show ?thesis using c by (simp add: dispatch_def)
  next
    case SocketOpen
    then show ?thesis using c
      by (simp add: dispatch_def socket_onopen_def resolve_def resume_returned)
  next
    case SocketError
    then show ?thesis using c
      by (simp add: dispatch_def socket_onerror_def resolve_def resume_returned)
  next
    case SocketClose
    then show ?thesis using c by (simp add: dispatch_def)
  next
    case (RecognitionError err)
    then show ?thesis using c
      by (simp add: dispatch_def recognition_onerror_def onError_def)
  next
    case Elapse
    then show ?thesis using c by (simp add: dispatch_def)
  next
    case (SocketMessage msg)
    then show ?thesis
      using c same_control_handlers(1) [of ?a msg]
      by (auto simp: dispatch_def same_control_def)
  next
    case (AudioProcess inputData)
    then show ?thesis
      using c same_control_handlers(2) [of ?a inputData]
      by (auto simp: dispatch_def same_control_def)
  next
    case (DataAvailable data)
    then show ?thesis
      using c same_control_handlers(3) [of ?a data]
      by (auto simp: dispatch_def same_control_def)
  next
    case IntervalTick
    then show ?thesis
      using c same_control_handlers(4) [of ?a]
      by (auto simp: dispatch_def same_control_def)
  next
    case (FetchSettled r)
    then show ?thesis
      using c same_control_handlers(5) [of ?a r "inflight ?a - 1"]
      by (auto simp: dispatch_def same_control_def)
  next
    case (RecognitionResult resultIndex results)
    then show ?thesis
      using c same_control_handlers(6) [of ?a resultIndex results]
      by (auto simp: dispatch_def same_control_def)
  qed
  then show ?thesis unfolding step_def a .
qed

lemma pending_run:
  assumes "chain_inv s" "suspended s = AwaitHandshake" "timeout s = Some due"
    and "suspended (run env s es) = AwaitHandshake"
  shows "timeout (run env s es) = Some due"
  using assms
proof (induction es arbitrary: s)
  case Nil
  then show ?case by simp
next
  case (Cons e es)
  have c: "chain_inv (step env e s)" using Cons.prems(1) by (rule chain_inv_step)
  consider "suspended (step env e s) = AwaitHandshake \<and> timeout (step env e s) = Some due"
    | "suspended (step env e s) = Returned"
    using pending_step [OF Cons.prems(1-3), of env e] by blast
  then show ?case
  proof cases
    case 1
    then show ?thesis using Cons.IH [OF c] Cons.prems(4) by simp
  next
    case 2
    then have "timeout (step env e s) = None" using c by (simp add: chain_inv_def)
    then have "suspended (run env (step env e s) es) = Returned"
      using returned_stable_run [OF 2, of env es] by simp
    then show ?thesis using Cons.prems(4) by simp
  qed
qed

text \<open>
  Claim C5. The providers are attempted in the order streaming, batch, local, each one
  exactly when the ones before it have failed: the results of the attempts of any session
  are none yet, or those of \<open>chain_outcome\<close>, and the attempts are the providers of these
  results (only the streaming one while its attempt is pending). Take a session whose
  streaming attempt creates its socket at time \<open>t0\<close>; the timer is armed for
  \<open>t0 + 5000\<close>, and it stays so whatever events \<open>mid\<close> arrive while the handshake is
  pending. If the socket then opens at a time \<open>t\<close> before \<open>t0 + 5000\<close>, the streaming
  provider is viable and recording, and no other provider is attempted whatever happens
  later (\<open>es'\<close>). If the handshake is still pending at \<open>t0 + 5000\<close>, then by the next event
  at or after that time the socket has been closed, the streaming attempt has failed, and
  the batch provider has been attempted next (and after it the local one exactly when the
  recorder could not be started).
\<close>

theorem handshake_window:
  assumes "suspended (session_of env es) = AwaitConfig" and "now (session_of env es) \<le> t0"
  shows "suspended (handshake_pending env es t0 []) = AwaitHandshake
    \<and> timeout (handshake_pending env es t0 []) = Some (t0 + 5000)
    \<and> (suspended (handshake_pending env es t0 mid) = AwaitHandshake \<longrightarrow>
          timeout (handshake_pending env es t0 mid) = Some (t0 + 5000)
        \<and> (t < t0 + 5000 \<longrightarrow>
              verdicts (step env (t, SocketOpen) (handshake_pending env es t0 mid))
                = [(deepgram, True)]
            \<and> isRecording (step env (t, SocketOpen) (handshake_pending env es t0 mid))
            \<and> provider (step env (t, SocketOpen) (handshake_pending env es t0 mid))
                = Some deepgram
            \<and> attempts (run env (handshake_pending env es t0 mid) ((t, SocketOpen) # es'))
                = [deepgram])
        \<and> (t0 + 5000 \<le> t \<longrightarrow>
              (socket (step env (t, ev) (handshake_pending env es t0 mid)) = Some CLOSING
               \<or> socket (step env (t, ev) (handshake_pending env es t0 mid)) = Some CLOSED)
            \<and> verdicts (step env (t, ev) (handshake_pending env es t0 mid))
                = chain_outcome env False
            \<and> attempts (step env (t, ev) (handshake_pending env es t0 mid))
                = map fst (chain_outcome env False)))
    \<and> (verdicts (session_of env es'') = []
        \<or> verdicts (session_of env es'') = chain_outcome env True
        \<or> verdicts (session_of env es'') = chain_outcome env False)
    \<and> attempts (session_of env es'')
        = (if suspended (session_of env es'') = Returned
           then map fst (verdicts (session_of env es''))
           else if suspended (session_of env es'') = AwaitGetUserMedia then []
           else [deepgram])
    \<and> (suspended (session_of env es'') \<noteq> Returned \<longrightarrow> verdicts (session_of env es'') = [])
    \<and> attempts (session_of env es'')
        = take (length (attempts (session_of env es''))) [deepgram, assemblyai, webspeech]"
proof -
  let ?s = "session_of env es"
  let ?h = "handshake_started env es t0"
  let ?p = "handshake_pending env es t0 mid"
  have h: "?h = ?s\<lparr>now := t0, socket := Some CONNECTING, timeout := Some (t0 + 5000),
      suspended := AwaitHandshake\<rparr>"
    using assms by (rule handshake_started_state)
  have hs: "?h = session_of env (es @ [(t0, ConfigSettled ConfigOk)])"
    by (simp add: handshake_started_def session_of_append)
  have ch: "chain_inv ?h" unfolding hs by (rule chain_inv_session)
  have 1: "suspended (handshake_pending env es t0 []) = AwaitHandshake"
    "timeout (handshake_pending env es t0 []) = Some (t0 + 5000)"
    by (simp_all add: handshake_pending_def h)
  have 2: "timeout ?p = Some (t0 + 5000)
      \<and> (t < t0 + 5000 \<longrightarrow>
            verdicts (step env (t, SocketOpen) ?p) = [(deepgram, True)]
          \<and> isRecording (step env (t, SocketOpen) ?p)
          \<and> provider (step env (t, SocketOpen) ?p) = Some deepgram
          \<and> attempts (run env ?p ((t, SocketOpen) # es')) = [deepgram])
      \<and> (t0 + 5000 \<le> t \<longrightarrow>
            (socket (step env (t, ev) ?p) = Some CLOSING
             \<or> socket (step env (t, ev) ?p) = Some CLOSED)
          \<and> verdicts (step env (t, ev) ?p) = chain_outcome env False
          \<and> attempts (step env (t, ev) ?p) = map fst (chain_outcome env False))"
    if pend: "suspended ?p = AwaitHandshake"
  proof -
    have cp: "chain_inv ?p"
      unfolding handshake_pending_def using ch by (rule chain_inv_run)
    have tp: "timeout ?p = Some (t0 + 5000)"
      unfolding handshake_pending_def
      using ch _ _ pend [unfolded handshake_pending_def]
      by (rule pending_run) (simp_all add: h)
    have w: "attempts ?p = [deepgram]" "verdicts ?p = []" "socket ?p = Some CONNECTING"
      using cp pend by (simp_all add: chain_inv_def waiting_ok_def)
    have opened: "verdicts (step env (t, SocketOpen) ?p) = [(deepgram, True)]
          \<and> isRecording (step env (t, SocketOpen) ?p)
          \<and> provider (step env (t, SocketOpen) ?p) = Some deepgram
          \<and> attempts (run env ?p ((t, SocketOpen) # es')) = [deepgram]"
      if "t < t0 + 5000"
    proof -
      have a: "advance env t ?p = ?p\<lparr>now := max (now ?p) t\<rparr>"
        using that tp by (simp add: advance_def Let_def)
      have o: "step env (t, SocketOpen) ?p =
        ?p\<lparr>now := max (now ?p) t, socket := Some OPEN, timeout := None, socketRef := True,
          provider := Some deepgram, processor := True, verdicts := [(deepgram, True)],
          isRecording := True, isConnecting := False, suspended := Returned\<rparr>"
        unfolding step_def fst_conv snd_conv a
        using w pend by (simp add: dispatch_def socket_onopen_def resolve_def resume_True)
      have ao: "attempts (step env (t, SocketOpen) ?p) = [deepgram]"
        unfolding o using w by simp
      have "attempts (run env (step env (t, SocketOpen) ?p) es')
          = attempts (step env (t, SocketOpen) ?p)"
        using returned_stable_run [of "step env (t, SocketOpen) ?p" env es'] by (simp add: o)
      then have "attempts (run env ?p ((t, SocketOpen) # es')) = [deepgram]"
        by (simp add: ao)
      then show ?thesis by (simp add: o)
    qed
    have timed_out: "(socket (step env (t, ev) ?p) = Some CLOSING
             \<or> socket (step env (t, ev) ?p) = Some CLOSED)
          \<and> verdicts (step env (t, ev) ?p) = chain_outcome env False
          \<and> attempts (step env (t, ev) ?p) = map fst (chain_outcome env False)"
      if "t0 + 5000 \<le> t"
    proof -
      let ?x = "socket_close (?p\<lparr>now := t0 + 5000, timeout := None\<rparr>)"
      let ?r = "startRecording_resume env False ?x"
      let ?a = "?r\<lparr>now := max (now ?r) t\<rparr>"
      have sx: "suspended ?x = AwaitHandshake" "attempts ?x = [deepgram]" "verdicts ?x = []"
        "socket ?x = Some CLOSING" "timeout ?x = None"
        using w pend by (simp_all add: socket_close_def)
      have a: "advance env t ?p = ?a"
        using that tp sx(1)
        by (simp add: advance_def Let_def timeout_callback_def resolve_def)
      have r: "verdicts ?a = chain_outcome env False"
        "attempts ?a = map fst (chain_outcome env False)"
        "socket ?a = Some CLOSING" "suspended ?a = Returned" "timeout ?a = None"
        using resume_outcome [OF sx(3), of env False] resume_attempts [of env False ?x]
          socket_resume [of env False ?x] resume_returned [of env False ?x] sx
        by (simp_all add: chain_outcome_def)
      have "verdicts (dispatch env ev ?a) = verdicts ?a"
        "attempts (dispatch env ev ?a) = attempts ?a"
        using returned_dispatch [OF r(4,5)] by simp_all
      moreover have "socket (dispatch env ev ?a) = Some CLOSING
          \<or> socket (dispatch env ev ?a) = Some CLOSED"
        using r(4,3) by (rule closing_dispatch)
      ultimately show ?thesis
        unfolding step_def fst_conv snd_conv a using r(1,2) by simp
    qed
    from tp opened timed_out show ?thesis by blast
  qed
  let ?q = "session_of env es''"
  have cq: "chain_inv ?q" by (rule chain_inv_session)
  have 3: "verdicts ?q = [] \<or> verdicts ?q = chain_outcome env True
      \<or> verdicts ?q = chain_outcome env False"
    using order_inv_session [of env es''] by (simp add: order_inv_def)
  have 4: "attempts ?q = (if suspended ?q = Returned then map fst (verdicts ?q)
      else if suspended ?q = AwaitGetUserMedia then [] else [deepgram])"
    using cq by (cases "suspended ?q") (simp_all add: chain_inv_def returned_ok_def)
  have 5: "verdicts ?q = []" if "suspended ?q \<noteq> Returned"
    using cq that by (cases "suspended ?q") (simp_all add: chain_inv_def waiting_ok_def)
  have 6: "attempts ?q = take (length (attempts ?q)) [deepgram, assemblyai, webspeech]"
    by (rule attempts_in_order)
  from 1 2 3 4 5 6 show ?thesis by blast
qed


theorem handshake_window_witness:
  "suspended (session_of env_none [(0, GetUserMedia True)]) = AwaitConfig
   \<and> suspended (handshake_pending env_none [(0, GetUserMedia True)] 100 [(200, StopRecording)])
       = AwaitHandshake
   \<and> timeout (handshake_pending env_none [(0, GetUserMedia True)] 100 [(200, StopRecording)])
       = Some 5100
   \<and> verdicts (step env_none (4100, SocketOpen)
        (handshake_pending env_none [(0, GetUserMedia True)] 100 [(200, StopRecording)]))
       = [(deepgram, True)]
   \<and> attempts (run env_none
        (handshake_pending env_none [(0, GetUserMedia True)] 100 [(200, StopRecording)])
        [(4100, SocketOpen), (9000, StopRecording)]) = [deepgram]
   \<and> verdicts (step env_none (5100, Elapse)
        (handshake_pending env_none [(0, GetUserMedia True)] 100 [(200, StopRecording)]))
       = [(deepgram, False), (assemblyai, False), (webspeech, False)]
   \<and> attempts (step env_none (5100, Elapse)
        (handshake_pending env_none [(0, GetUserMedia True)] 100 [(200, StopRecording)]))
       = [deepgram, assemblyai, webspeech]"
proof -
  have p: "suspended (session_of env_none [(0, GetUserMedia True)]) = AwaitConfig"
    by (simp add: eval_defs)
  have q: "now (session_of env_none [(0, GetUserMedia True)]) \<le> 100"
    by (simp add: eval_defs)
  have r: "suspended (handshake_pending env_none [(0, GetUserMedia True)] 100
      [(200, StopRecording)]) = AwaitHandshake"
    by (simp add: eval_defs)
  have a: "(4100 :: nat) < 100 + 5000" and b: "(100 :: nat) + 5000 \<le> 5100"
    by simp_all
  have c: "chain_outcome env_none False
      = [(deepgram, False), (assemblyai, False), (webspeech, False)]"
    by (simp add: chain_outcome_def env_none_def)
  show ?thesis
    using p r a b c
      handshake_window [OF p q, where mid = "[(200, StopRecording)]" and t = 4100
        and es' = "[(9000, StopRecording)]"]
      handshake_window [OF p q, where mid = "[(200, StopRecording)]" and t = 5100
        and ev = Elapse]
    by simp
qed

subsection \<open>Blank transcripts\<close>

lemma trim_empty_iff: "(trim txt = []) = blank txt"
proof
  assume "blank txt"
  then have "\<forall>c \<in> set txt. js_whitespace c"
    by (simp add: blank_def list_all_iff)
  then show "trim txt = []"
    by (auto simp: trim_def dest: set_dropWhileD)
next
  assume e: "trim txt = []"
  let ?d = "dropWhile js_whitespace txt"
  have "dropWhile js_whitespace (rev ?d) = []"
    using e by (simp add: trim_def)
  then have "\<forall>c \<in> set (rev ?d). js_whitespace c"
    by (simp only: dropWhile_eq_Nil_conv)
  then have a: "\<forall>c \<in> set ?d. js_whitespace c"
    by simp
  have "?d = []"
  proof (rule ccontr)
    assume n: "?d \<noteq> []"
    then have "\<not> js_whitespace (hd ?d)" by (rule hd_dropWhile)
    moreover have "hd ?d \<in> set ?d" using n by simp
    ultimately show False using a by blast
  qed
  then have "\<forall>c \<in> set txt. js_whitespace c"
    by (simp only: dropWhile_eq_Nil_conv)
  then show "blank txt"
    by (simp add: blank_def list_all_iff)
qed

lemma socket_onmessage_never_blank:
  "transcripts (socket_onmessage msg s) = transcripts s
   \<or> (\<exists>txt isFinal. transcripts (socket_onmessage msg s) = transcripts s @ [(txt, isFinal)]
        \<and> \<not> blank txt)"
  by (cases msg)
     (auto simp: socket_onmessage_def onTranscript_def trim_empty_iff split: option.splits)

text \<open>
  Claim C1 (a transcript whose text is empty or only white space is never passed to
  \<open>onTranscript\<close>, for any provider). The streaming handler tests \<open>transcript.trim()\<close> and
  forwards no blank text (\<open>socket_onmessage_never_blank\<close>). The batch and the local
  provider test only that the text is non-empty: a response of the batch route whose
  transcript is one space, and a recognizer result that is one space, are both forwarded.
\<close>

theorem blank_transcript_forwarded:
  "blank '' ''
   \<and> transcripts (session_of env_all (one_submission (Response 200 (Some '' ''))))
       = [('' '', True)]
   \<and> transcripts (session_of env_local
        (no_streaming @ [(200, RecognitionResult 0 [('' '', False)])])) = [('' '', False)]"
  by (simp add: eval_defs length_clip blank_def js_whitespace_def)

subsection \<open>Viability of the batch provider\<close>

text \<open>
  Against claim C2 as stated: with the streaming configuration refused, the batch attempt
  is viable and the session is recording before any clip has been posted; and when the
  first clip is then posted to a route without its key (status 500), the batch provider
  stays the active one and the local provider is not attempted.
\<close>

theorem batch_viable_before_submission:
  "verdicts (session_of env_all no_streaming) = [(deepgram, False), (assemblyai, True)]
   \<and> submitted (session_of env_all no_streaming) = []
   \<and> isRecording (session_of env_all no_streaming)
   \<and> POST False True TranscribeThrows = Response 500 None
   \<and> submitted (session_of env_all (one_submission (POST False True TranscribeThrows))) = [clip]
   \<and> verdicts (session_of env_all (one_submission (POST False True TranscribeThrows)))
       = [(deepgram, False), (assemblyai, True)]
   \<and> attempts (session_of env_all (one_submission (POST False True TranscribeThrows)))
       = [deepgram, assemblyai]
   \<and> provider (session_of env_all (one_submission (POST False True TranscribeThrows)))
       = Some assemblyai
   \<and> isRecording (session_of env_all (one_submission (POST False True TranscribeThrows)))"
  by (simp add: eval_defs length_clip)

text \<open>
  Claim C2, as amended. \<open>startAssemblyAI\<close> reports viable exactly when the recorder is
  created and started without throwing, and it posts nothing; the chain goes on to the
  local provider exactly when it reports not viable; and no settled request, whatever its
  outcome, changes the attempts, their results or the active provider.
\<close>

theorem batch_viability:
  "fst (startAssemblyAI env s) = (recorder env = RecorderStarts)
   \<and> submitted (snd (startAssemblyAI env s)) = submitted s
   \<and> inflight (snd (startAssemblyAI env s)) = inflight s
   \<and> attempts (startRecording_resume env False s)
       = attempts s @ (if recorder env = RecorderStarts then [assemblyai]
                       else [assemblyai, webspeech])
   \<and> verdicts (dispatch env (FetchSettled r) s) = verdicts s
   \<and> attempts (dispatch env (FetchSettled r) s) = attempts s
   \<and> provider (dispatch env (FetchSettled r) s) = provider s"
proof -
  have 1: "fst (startAssemblyAI env s) = (recorder env = RecorderStarts)
      \<and> submitted (snd (startAssemblyAI env s)) = submitted s
      \<and> inflight (snd (startAssemblyAI env s)) = inflight s"
    by (cases "recorder env") (simp_all add: startAssemblyAI_def)
  have 2: "attempts (startRecording_resume env False s)
       = attempts s @ (if recorder env = RecorderStarts then [assemblyai]
                       else [assemblyai, webspeech])"
    by (cases "recorder env"; cases "speech env")
       (simp_all add: startRecording_resume_def attempt_AssemblyAI_def
        startAssemblyAI_def attempt_WebSpeech_def startWebSpeech_def onError_def stop_tracks_def
        Let_def)
  have 3: "verdicts (dispatch env (FetchSettled r) s) = verdicts s
      \<and> attempts (dispatch env (FetchSettled r) s) = attempts s
      \<and> provider (dispatch env (FetchSettled r) s) = provider s"
    by (simp add: dispatch_def fetch_settled_def onTranscript_def
        split: fetch_result.splits option.splits)
  from 1 2 3 show ?thesis by blast
qed

subsection \<open>Stopping during the handshake\<close>

lemma stopRecording_during_handshake:
  assumes "suspended (session_of env es) = AwaitHandshake"
  shows "socket (step env (t, StopRecording) (session_of env es)) = Some CONNECTING
    \<or> suspended (step env (t, StopRecording) (session_of env es)) = Returned"
proof -
  let ?a = "advance env t (session_of env es)"
  have "chain_inv ?a"
    by (simp add: chain_inv_advance chain_inv_session)
  moreover have "suspended ?a = AwaitHandshake \<or> suspended ?a = Returned"
    using assms
    by (cases "timeout (session_of env es)")
       (simp_all add: advance_def Let_def timeout_callback_def resolve_def socket_close_def
        resume_returned)
  ultimately show ?thesis
    by (auto simp: step_def dispatch_def chain_inv_def stopRecording_control)
qed

text \<open>
  Claim C3 (\<open>stopRecording\<close> during the handshake closes the socket, releases the
  microphone, and the session never becomes active from that attempt). \<open>socketRef\<close> is
  set only by \<open>onopen\<close>, so during the handshake \<open>stopRecording\<close> finds no socket to
  close: after the call the socket is still connecting and the attempt still pending,
  though the microphone is released. When the socket then opens, \<open>startRecording\<close> runs on:
  the session is recording with the streaming provider, on an open socket. (The model
  takes the audio graph of \<open>onopen\<close> to be built without an exception.)
\<close>

theorem stop_during_handshake:
  "suspended (session_of env_all connecting) = AwaitHandshake
   \<and> isConnecting (session_of env_all connecting)
   \<and> suspended (session_of env_all (connecting @ [(200, StopRecording)])) = AwaitHandshake
   \<and> socket (session_of env_all (connecting @ [(200, StopRecording)])) = Some CONNECTING
   \<and> stream (session_of env_all (connecting @ [(200, StopRecording)])) = Some ended
   \<and> isRecording (session_of env_all (connecting @ [(200, StopRecording), (300, SocketOpen)]))
   \<and> provider (session_of env_all (connecting @ [(200, StopRecording), (300, SocketOpen)]))
       = Some deepgram
   \<and> socket (session_of env_all (connecting @ [(200, StopRecording), (300, SocketOpen)]))
       = Some OPEN"
  by (simp add: eval_defs)

text \<open>The same holds before the permission is granted: a \<open>stopRecording\<close> that arrives
  while \<open>getUserMedia\<close> is pending finds no stream to release, and the session goes on to
  record with the stream open.\<close>

lemma stop_before_permission:
  "stream (session_of env_all [(0, StopRecording)]) = None
   \<and> stream (session_of env_all ((0, StopRecording) # connecting @ [(300, SocketOpen)]))
       = Some live
   \<and> isRecording (session_of env_all ((0, StopRecording) # connecting @ [(300, SocketOpen)]))"
  by (simp add: eval_defs)

subsection \<open>The batch chunker\<close>



end
